theory Spec2Isabelle
  imports Complex_Main "HOL-Library.Multiset"
begin

section \<open>Data model of \<^verbatim>\<open>fea_core.py\<close>\<close>

text \<open>
  The backend is three Python classes: \<^verbatim>\<open>Node\<close>, \<^verbatim>\<open>SpringElement\<close> and
  \<^verbatim>\<open>SpringFEASolver\<close>. Python floats are idealised as exact reals (the specification
  speaks of real numbers throughout); infinities and NaN are outside the model. Rounding
  is modelled where a statement depends on it: the assembly is given a second time with
  double additions, for the question whether the order of the elements matters.

  Record fields carry a short prefix (\<open>nd_\<close>, \<open>el_\<close>, \<open>sv_\<close>), because the source's
  field names (\<^verbatim>\<open>i\<close>, \<^verbatim>\<open>j\<close>, \<^verbatim>\<open>k\<close>, \<^verbatim>\<open>u\<close>, \<^verbatim>\<open>n\<close>, \<^verbatim>\<open>id\<close>,
  \<^verbatim>\<open>fixed\<close> used by two classes) would otherwise capture the variable names of every
  statement below.

  Node objects are shared: the solver's node list and the elements hold references to the
  same objects, and \<^verbatim>\<open>solve\<close> writes into them. Nodes therefore live in a store that
  maps a reference to the object's current fields; the node list and the two ends of an
  element are references.
\<close>

type_synonym ref = nat

record Node =
  nd_id :: int
  nd_force :: real
  nd_fixed :: bool
  nd_prescribed :: bool
  nd_u_prescribed :: real
  nd_u :: real
  nd_dof :: int

record SpringElement =
  el_i :: ref
  el_j :: ref
  el_k :: real
  el_axial :: real

record SpringFEASolver =
  sv_nodes :: "ref list"
  sv_elements :: "SpringElement list"
  sv_n :: nat
  K_full :: "real list list"
  F_full :: "real list"
  sv_fixed :: "bool list"
  u_known :: "real list"

record world =
  heap :: "ref \<Rightarrow> Node"
  solver :: SpringFEASolver

text \<open>
  Both failures the backend raises itself are \<^verbatim>\<open>ValueError\<close>s that differ in their
  message; \<^verbatim>\<open>IndexError\<close> is what numpy raises for an index outside an array.
\<close>

datatype message =
  Identical_nodes int
  | Stiffness_not_positive
  | Singular_stiffness

datatype error = ValueError message | IndexError

type_synonym solution = "real list \<times> real list \<times> nat list \<times> nat list"

section \<open>Constructors\<close>

definition Node_init :: "int \<Rightarrow> Node" where
  "Node_init node_id =
     \<lparr>nd_id = node_id, nd_force = 0, nd_fixed = False, nd_prescribed = False,
      nd_u_prescribed = 0, nd_u = 0, nd_dof = node_id - 1\<rparr>"

text \<open>
  \<^verbatim>\<open>SpringElement.__init__\<close> reads the ids of the two nodes and either raises or fills
  in the fields of the new object. It writes to nothing else, so the world it returns is
  the world it was given.
\<close>

definition SpringElement_init ::
  "world \<Rightarrow> ref \<Rightarrow> ref \<Rightarrow> real \<Rightarrow> world \<times> (error + SpringElement)" where
  "SpringElement_init w ni nj k =
     (if nd_id (heap w ni) = nd_id (heap w nj)
        then (w, Inl (ValueError (Identical_nodes (nd_id (heap w ni)))))
      else if k \<le> 0
        then (w, Inl (ValueError Stiffness_not_positive))
      else (w, Inr \<lparr>el_i = ni, el_j = nj, el_k = k, el_axial = 0\<rparr>))"

definition SpringFEASolver_init :: "ref list \<Rightarrow> SpringElement list \<Rightarrow> SpringFEASolver" where
  "SpringFEASolver_init nodes elements =
     (let n = length nodes in
      \<lparr>sv_nodes = nodes, sv_elements = elements, sv_n = n,
       K_full = replicate n (replicate n 0), F_full = replicate n 0,
       sv_fixed = replicate n False, u_known = replicate n 0\<rparr>)"

section \<open>numpy arrays\<close>

text \<open>
  A one-dimensional array is a list, a matrix a list of rows. An integer index into an
  axis of length \<open>n\<close> is valid from \<open>-n\<close> to \<open>n - 1\<close>, a negative one counting from
  the end; any other index raises \<^verbatim>\<open>IndexError\<close>.
\<close>

definition np_index :: "nat \<Rightarrow> int \<Rightarrow> error + nat" where
  "np_index n i =
     (if 0 \<le> i \<and> i < int n then Inr (nat i)
      else if - int n \<le> i \<and> i < 0 then Inr (nat (int n + i))
      else Inl IndexError)"

definition bind_err :: "error + 'a \<Rightarrow> ('a \<Rightarrow> error + 'b) \<Rightarrow> error + 'b" where
  "bind_err r f = (case r of Inl e \<Rightarrow> Inl e | Inr x \<Rightarrow> f x)"

text \<open>\<^verbatim>\<open>K[r, c] += v\<close>\<close>

definition add_at :: "real list list \<Rightarrow> int \<Rightarrow> int \<Rightarrow> real \<Rightarrow> error + real list list" where
  "add_at K r c v =
     bind_err (np_index (length K) r) (\<lambda>a.
     bind_err (np_index (length (K ! a)) c) (\<lambda>b.
       Inr (K[a := (K ! a)[b := K ! a ! b + v]])))"

text \<open>\<^verbatim>\<open>u[i]\<close> for an integer \<open>i\<close>\<close>

definition get_at :: "real list \<Rightarrow> int \<Rightarrow> error + real" where
  "get_at xs i = bind_err (np_index (length xs) i) (\<lambda>a. Inr (xs ! a))"

definition dot :: "real list \<Rightarrow> real list \<Rightarrow> real" where
  "dot xs ys = sum_list (map2 (*) xs ys)"

text \<open>\<^verbatim>\<open>K @ u\<close>, \<^verbatim>\<open>a - b\<close> and \<^verbatim>\<open>K.sum()\<close>\<close>

definition matvec :: "real list list \<Rightarrow> real list \<Rightarrow> real list" where
  "matvec K u = map (\<lambda>row. dot row u) K"

definition vsub :: "real list \<Rightarrow> real list \<Rightarrow> real list" where
  "vsub xs ys = map2 (-) xs ys"

definition matrix_sum :: "real list list \<Rightarrow> real" where
  "matrix_sum K = sum_list (map sum_list K)"

text \<open>\<^verbatim>\<open>np.where(mask)[0]\<close>, \<^verbatim>\<open>xs[idx]\<close>, \<^verbatim>\<open>K[np.ix_(rows, cols)]\<close> and \<^verbatim>\<open>u[idx] = vals\<close>\<close>

definition np_where :: "bool list \<Rightarrow> nat list" where
  "np_where bs = filter (\<lambda>i. bs ! i) [0..<length bs]"

definition gather :: "real list \<Rightarrow> nat list \<Rightarrow> real list" where
  "gather xs idx = map (\<lambda>i. xs ! i) idx"

definition ix :: "real list list \<Rightarrow> nat list \<Rightarrow> nat list \<Rightarrow> real list list" where
  "ix K rows cols = map (\<lambda>r. map (\<lambda>c. K ! r ! c) cols) rows"

fun scatter :: "real list \<Rightarrow> nat list \<Rightarrow> real list \<Rightarrow> real list" where
  "scatter u (i # idx) (v # vals) = scatter (u[i := v]) idx vals"
| "scatter u _ _ = u"

section \<open>The dense linear solve\<close>

text \<open>
  \<^verbatim>\<open>np.linalg.solve\<close> belongs to numpy and is not under \<^verbatim>\<open>src/\<close>. The
  specification asks for the solution of the dense linear system \<open>K_ff \<cdot> u_f = rhs\<close> and
  for a failure when the reduced matrix is singular. The model below is the method of the
  LAPACK routine numpy calls, Gaussian elimination with partial pivoting followed by back
  substitution, in exact arithmetic. A row is the pair of its coefficients and its
  right-hand side.
\<close>

type_synonym row = "real list \<times> real"

text \<open>
  Modelled from the spec: part of \<^verbatim>\<open>np.linalg.solve\<close>, which is not under
  \<^verbatim>\<open>src/\<close>. The leading coefficient of a row.
\<close>

definition lead :: "row \<Rightarrow> real" where
  "lead r = (case fst r of [] \<Rightarrow> 0 | a # _ \<Rightarrow> a)"

text \<open>
  Modelled from the spec: part of \<^verbatim>\<open>np.linalg.solve\<close>, which is not under
  \<^verbatim>\<open>src/\<close>. Partial pivoting picks the first row whose leading coefficient is
  largest in absolute value.
\<close>

fun pivot_row :: "row list \<Rightarrow> nat" where
  "pivot_row [] = 0"
| "pivot_row (r # rs) =
     (if \<forall>q \<in> set rs. \<bar>lead q\<bar> \<le> \<bar>lead r\<bar> then 0 else Suc (pivot_row rs))"

text \<open>
  Modelled from the spec: part of \<^verbatim>\<open>np.linalg.solve\<close>, which is not under
  \<^verbatim>\<open>src/\<close>. Subtracting the multiple of the pivot row \<open>p\<close> that clears the leading
  coefficient of row \<open>r\<close>, and dropping that column.
\<close>

fun eliminate :: "row \<Rightarrow> row \<Rightarrow> row" where
  "eliminate (pa # pas, pb) (ra # ras, rb) =
     (map2 (\<lambda>p r. r - ra / pa * p) pas ras, rb - ra / pa * pb)"
| "eliminate p r = r"

text \<open>
  Modelled from the spec: part of \<^verbatim>\<open>np.linalg.solve\<close>, which is not under
  \<^verbatim>\<open>src/\<close>. Elimination on the rows of \<open>A x = b\<close>: the pivot row is swapped to the
  top; a pivot that is exactly zero means the matrix is singular (\<open>None\<close>); otherwise the
  remaining rows are reduced, the smaller system is solved, and the first unknown follows
  by back substitution.
\<close>

function gauss :: "row list \<Rightarrow> real list option" where
  "gauss [] = Some []"
| "gauss (r # rs) =
     (let rows = r # rs;
          m = pivot_row rows;
          sw = rows[0 := rows ! m, m := r];
          p = hd sw;
          rest = tl sw
      in case fst p of
           [] \<Rightarrow> None
         | pa # pas \<Rightarrow>
             if pa = 0 then None
             else (case gauss (map (eliminate p) rest) of
                     None \<Rightarrow> None
                   | Some xs \<Rightarrow> Some ((snd p - dot pas xs) / pa # xs)))"
  by pat_completeness auto
termination
  by (relation "measure length") auto

text \<open>
  Modelled from the spec: \<^verbatim>\<open>np.linalg.solve(A, b)\<close>, numpy's routine, which is not
  under \<^verbatim>\<open>src/\<close>. It returns the solution of the dense system, or fails when \<open>A\<close> is
  singular or not square; \<open>None\<close> stands for its \<^verbatim>\<open>LinAlgError\<close>.
\<close>

definition linalg_solve :: "real list list \<Rightarrow> real list \<Rightarrow> real list option" where
  "linalg_solve A b =
     (if length b = length A \<and> (\<forall>r \<in> set A. length r = length A)
      then gauss (zip A b) else None)"

section \<open>Spring elements\<close>

definition ke :: "SpringElement \<Rightarrow> real list list" where
  "ke e = (let k = el_k e in [[k, - k], [- k, k]])"

definition connectivity :: "(ref \<Rightarrow> Node) \<Rightarrow> SpringElement \<Rightarrow> int \<times> int" where
  "connectivity h e = (nd_dof (h (el_i e)), nd_dof (h (el_j e)))"

text \<open>
  \<^verbatim>\<open>add_to_global\<close> performs four in-place additions. When one of them raises, the
  matrix is lost with the exception: the only caller, \<^verbatim>\<open>assemble\<close>, works on a local
  matrix that it stores only after the loop.
\<close>

definition add_to_global ::
  "(ref \<Rightarrow> Node) \<Rightarrow> SpringElement \<Rightarrow> real list list \<Rightarrow> error + real list list" where
  "add_to_global h e K =
     (case connectivity h e of (ii, jj) \<Rightarrow>
        bind_err (add_at K ii ii (ke e ! 0 ! 0)) (\<lambda>K1.
        bind_err (add_at K1 ii jj (ke e ! 0 ! 1)) (\<lambda>K2.
        bind_err (add_at K2 jj ii (ke e ! 1 ! 0)) (\<lambda>K3.
        add_at K3 jj jj (ke e ! 1 ! 1)))))"

definition elongation :: "(ref \<Rightarrow> Node) \<Rightarrow> SpringElement \<Rightarrow> real list \<Rightarrow> error + real" where
  "elongation h e u =
     (case connectivity h e of (ii, jj) \<Rightarrow>
        bind_err (get_at u jj) (\<lambda>uj.
        bind_err (get_at u ii) (\<lambda>ui. Inr (uj - ui))))"

definition axial_force :: "(ref \<Rightarrow> Node) \<Rightarrow> SpringElement \<Rightarrow> real list \<Rightarrow> error + real" where
  "axial_force h e u = bind_err (elongation h e u) (\<lambda>d. Inr (el_k e * d))"

section \<open>Assembly\<close>

fun assemble_loop ::
  "(ref \<Rightarrow> Node) \<Rightarrow> SpringElement list \<Rightarrow> real list list \<Rightarrow> error + real list list" where
  "assemble_loop h [] K = Inr K"
| "assemble_loop h (e # es) K = bind_err (add_to_global h e K) (assemble_loop h es)"

definition assemble :: "world \<Rightarrow> world \<times> (error + real list list)" where
  "assemble w =
     (let s = solver w; h = heap w; n = sv_n s
      in case assemble_loop h (sv_elements s) (replicate n (replicate n 0)) of
           Inl err \<Rightarrow> (w, Inl err)
         | Inr K \<Rightarrow>
             (w\<lparr>solver := s\<lparr>K_full := K,
                  F_full := map (\<lambda>nd. nd_force (h nd)) (sv_nodes s),
                  sv_fixed := map (\<lambda>nd. nd_fixed (h nd)) (sv_nodes s),
                  u_known := map (\<lambda>nd. if nd_prescribed (h nd) then nd_u_prescribed (h nd) else 0)
                               (sv_nodes s)\<rparr>\<rparr>,
              Inr K))"

section \<open>Solving\<close>

text \<open>
  The two loops that end both branches of \<^verbatim>\<open>solve\<close>: every node of the list receives
  its displacement, then every element its axial force. An element whose DOF lies outside
  \<open>u\<close> stops the second loop with \<^verbatim>\<open>IndexError\<close>; what was written before stays written.
\<close>

fun write_u :: "(ref \<Rightarrow> Node) \<Rightarrow> (nat \<times> ref) list \<Rightarrow> real list \<Rightarrow> (ref \<Rightarrow> Node)" where
  "write_u h [] u = h"
| "write_u h ((i, nd) # rest) u = write_u (h(nd := (h nd)\<lparr>nd_u := u ! i\<rparr>)) rest u"

fun write_axial ::
  "(ref \<Rightarrow> Node) \<Rightarrow> real list \<Rightarrow> SpringElement list \<Rightarrow> SpringElement list \<times> error option" where
  "write_axial h u [] = ([], None)"
| "write_axial h u (e # es) =
     (case axial_force h e u of
        Inl err \<Rightarrow> (e # es, Some err)
      | Inr f \<Rightarrow> (case write_axial h u es of (es', r) \<Rightarrow> (e\<lparr>el_axial := f\<rparr> # es', r)))"

definition write_back :: "world \<Rightarrow> solution \<Rightarrow> world \<times> (error + solution)" where
  "write_back w sol =
     (case sol of (u, R, free_idx, fixed_idx) \<Rightarrow>
        let s = solver w;
            h = write_u (heap w) (enumerate 0 (sv_nodes s)) u
        in case write_axial h u (sv_elements s) of (es, r) \<Rightarrow>
             (w\<lparr>heap := h, solver := s\<lparr>sv_elements := es\<rparr>\<rparr>,
              case r of Some err \<Rightarrow> Inl err | None \<Rightarrow> Inr sol))"

text \<open>
  The body of \<^verbatim>\<open>solve\<close> after the assembly check. The solver's arrays are read with
  plain list indexing: \<^verbatim>\<open>__init__\<close> and \<^verbatim>\<open>assemble\<close>, the only writers, give them the
  shape of the node list (\<open>shape_ok\<close> below), and inside that shape no index leaves its
  array.
\<close>

definition solve_assembled :: "world \<Rightarrow> world \<times> (error + solution)" where
  "solve_assembled w =
     (let s = solver w;
          free_idx = np_where (map Not (sv_fixed s));
          fixed_idx = np_where (sv_fixed s);
          u = replicate (sv_n s) 0;
          uc = (if fixed_idx \<noteq> [] then gather (u_known s) fixed_idx else [])
      in if free_idx = [] then
           (let u = scatter u fixed_idx uc;
                R = vsub (matvec (K_full s) u) (F_full s)
            in write_back w (u, R, free_idx, fixed_idx))
         else
           (let Kff = ix (K_full s) free_idx free_idx;
                Ff = gather (F_full s) free_idx;
                rhs = (if fixed_idx \<noteq> []
                       then vsub Ff (matvec (ix (K_full s) free_idx fixed_idx) uc) else Ff)
            in case linalg_solve Kff rhs of
                 None \<Rightarrow> (w, Inl (ValueError Singular_stiffness))
               | Some uf \<Rightarrow>
                   (let u = scatter u free_idx uf;
                        u = (if fixed_idx \<noteq> [] then scatter u fixed_idx uc else u);
                        R = vsub (matvec (K_full s) u) (F_full s)
                    in write_back w (u, R, free_idx, fixed_idx))))"

definition solve :: "world \<Rightarrow> world \<times> (error + solution)" where
  "solve w =
     (if matrix_sum (K_full (solver w)) = 0 then
        (case assemble w of
           (w', Inl err) \<Rightarrow> (w', Inl err)
         | (w', Inr K) \<Rightarrow> solve_assembled w')
      else solve_assembled w)"

definition element_forces :: "SpringFEASolver \<Rightarrow> real list" where
  "element_forces s = map el_axial (sv_elements s)"

section \<open>Shapes and notions used in the statements\<close>

definition square :: "nat \<Rightarrow> real list list \<Rightarrow> bool" where
  "square n K \<longleftrightarrow> length K = n \<and> (\<forall>r \<in> set K. length r = n)"

definition shape_ok :: "SpringFEASolver \<Rightarrow> bool" where
  "shape_ok s \<longleftrightarrow>
     sv_n s = length (sv_nodes s) \<and> square (sv_n s) (K_full s) \<and>
     length (F_full s) = sv_n s \<and> length (sv_fixed s) = sv_n s \<and>
     length (u_known s) = sv_n s"

text \<open>
  An element can be assembled into an \<open>n \<times> n\<close> matrix when both its DOFs are valid
  numpy indices for an axis of length \<open>n\<close>. Its four additions then amount to adding
  \<open>k \<cdot> d a \<cdot> d b\<close> to entry \<open>(a, b)\<close>, where \<open>d\<close> is \<open>+1\<close> at the first DOF and
  \<open>-1\<close> at the second.
\<close>

definition idx_ok :: "nat \<Rightarrow> int \<Rightarrow> bool" where
  "idx_ok n i \<longleftrightarrow> - int n \<le> i \<and> i < int n"

definition nidx :: "nat \<Rightarrow> int \<Rightarrow> nat" where
  "nidx n i = (if 0 \<le> i then nat i else nat (int n + i))"

definition elem_ok :: "(ref \<Rightarrow> Node) \<Rightarrow> nat \<Rightarrow> SpringElement \<Rightarrow> bool" where
  "elem_ok h n e \<longleftrightarrow> idx_ok n (nd_dof (h (el_i e))) \<and> idx_ok n (nd_dof (h (el_j e)))"

definition incidence :: "(ref \<Rightarrow> Node) \<Rightarrow> nat \<Rightarrow> SpringElement \<Rightarrow> nat \<Rightarrow> real" where
  "incidence h n e a =
     (if a = nidx n (nd_dof (h (el_i e))) then 1 else 0) -
     (if a = nidx n (nd_dof (h (el_j e))) then 1 else 0)"

definition contrib :: "(ref \<Rightarrow> Node) \<Rightarrow> nat \<Rightarrow> SpringElement \<Rightarrow> nat \<Rightarrow> nat \<Rightarrow> real" where
  "contrib h n e a b = el_k e * incidence h n e a * incidence h n e b"

text \<open>The world after a successful \<^verbatim>\<open>assemble\<close> that produced \<open>K\<close>.\<close>

definition assembled :: "world \<Rightarrow> real list list \<Rightarrow> world" where
  "assembled w K =
     w\<lparr>solver := (solver w)\<lparr>K_full := K,
          F_full := map (\<lambda>nd. nd_force (heap w nd)) (sv_nodes (solver w)),
          sv_fixed := map (\<lambda>nd. nd_fixed (heap w nd)) (sv_nodes (solver w)),
          u_known := map (\<lambda>nd. if nd_prescribed (heap w nd) then nd_u_prescribed (heap w nd) else 0)
                       (sv_nodes (solver w))\<rparr>\<rparr>"

definition elems_ok :: "world \<Rightarrow> bool" where
  "elems_ok w \<longleftrightarrow> (\<forall>e \<in> set (sv_elements (solver w)). elem_ok (heap w) (sv_n (solver w)) e)"

text \<open>Rows of an \<open>n \<times> n\<close> system.\<close>

definition wf_rows :: "nat \<Rightarrow> row list \<Rightarrow> bool" where
  "wf_rows n rows \<longleftrightarrow> length rows = n \<and> (\<forall>r \<in> set rows. length (fst r) = n)"

text \<open>
  A square matrix is singular when some nonzero vector is mapped to zero, that is, when
  \<open>A x = b\<close> never has exactly one solution.
\<close>

definition kernel_vec :: "real list list \<Rightarrow> real list \<Rightarrow> bool" where
  "kernel_vec A v \<longleftrightarrow> length v = length A \<and> (\<exists>x \<in> set v. x \<noteq> 0) \<and> (\<forall>r \<in> set A. dot r v = 0)"

definition singular :: "real list list \<Rightarrow> bool" where
  "singular A \<longleftrightarrow> (\<exists>v. kernel_vec A v)"

text \<open>
  What the body of \<^verbatim>\<open>solve\<close> computes from the solver's arrays before it writes
  anything back: \<open>None\<close> when the linear solve fails, otherwise the tuple it returns.
\<close>

definition solution_of :: "SpringFEASolver \<Rightarrow> solution option" where
  "solution_of s =
     (let free_idx = np_where (map Not (sv_fixed s));
          fixed_idx = np_where (sv_fixed s);
          u = replicate (sv_n s) 0;
          uc = (if fixed_idx \<noteq> [] then gather (u_known s) fixed_idx else [])
      in if free_idx = [] then
           (let u = scatter u fixed_idx uc
            in Some (u, vsub (matvec (K_full s) u) (F_full s), free_idx, fixed_idx))
         else
           (let Ff = gather (F_full s) free_idx;
                rhs = (if fixed_idx \<noteq> []
                       then vsub Ff (matvec (ix (K_full s) free_idx fixed_idx) uc) else Ff)
            in case linalg_solve (ix (K_full s) free_idx free_idx) rhs of
                 None \<Rightarrow> None
               | Some uf \<Rightarrow>
                   (let u = scatter u free_idx uf;
                        u = (if fixed_idx \<noteq> [] then scatter u fixed_idx uc else u)
                    in Some (u, vsub (matvec (K_full s) u) (F_full s), free_idx, fixed_idx))))"

text \<open>
  Agreement of two solvers on the node list and the assembled arrays, of two nodes on
  their input fields (everything but the solved displacement), and of two elements on
  their input fields (everything but the axial force).
\<close>

definition same_arrays :: "SpringFEASolver \<Rightarrow> SpringFEASolver \<Rightarrow> bool" where
  "same_arrays s t \<longleftrightarrow>
     sv_nodes s = sv_nodes t \<and> sv_n s = sv_n t \<and> K_full s = K_full t \<and>
     F_full s = F_full t \<and> sv_fixed s = sv_fixed t \<and> u_known s = u_known t"

definition same_inputs :: "Node \<Rightarrow> Node \<Rightarrow> bool" where
  "same_inputs a b \<longleftrightarrow>
     nd_id a = nd_id b \<and> nd_force a = nd_force b \<and> nd_fixed a = nd_fixed b \<and>
     nd_prescribed a = nd_prescribed b \<and> nd_u_prescribed a = nd_u_prescribed b \<and>
     nd_dof a = nd_dof b"

definition same_element_inputs :: "SpringElement \<Rightarrow> SpringElement \<Rightarrow> bool" where
  "same_element_inputs e f \<longleftrightarrow> el_i e = el_i f \<and> el_j e = el_j f \<and> el_k e = el_k f"

text \<open>
  The reduced system in the specification's words: \<open>K_ff\<close> is the free-by-free block of
  the stored matrix, and the right-hand side is \<open>F_f\<close>, minus \<open>K_fc \<cdot> u_c\<close> when some
  DOF is fixed.
\<close>

definition reduced_matrix :: "SpringFEASolver \<Rightarrow> real list list" where
  "reduced_matrix s =
     ix (K_full s) (np_where (map Not (sv_fixed s))) (np_where (map Not (sv_fixed s)))"

definition reduced_rhs :: "SpringFEASolver \<Rightarrow> real list" where
  "reduced_rhs s =
     (if np_where (sv_fixed s) \<noteq> []
      then vsub (gather (F_full s) (np_where (map Not (sv_fixed s))))
             (matvec (ix (K_full s) (np_where (map Not (sv_fixed s))) (np_where (sv_fixed s)))
                (gather (u_known s) (np_where (sv_fixed s))))
      else gather (F_full s) (np_where (map Not (sv_fixed s))))"

text \<open>Every column of the matrix sums to zero.\<close>

definition zero_columns :: "nat \<Rightarrow> real list list \<Rightarrow> bool" where
  "zero_columns n K \<longleftrightarrow> (\<forall>b<n. (\<Sum>a<n. K ! a ! b) = 0)"

section \<open>Example models\<close>

text \<open>
  Node \<open>r\<close> of the store has id \<open>r + 1\<close>. A single spring of stiffness 10 between node 1,
  which is fixed, and node 2, which is free and carries the load 5.
\<close>

definition single_spring :: world where
  "single_spring =
     \<lparr>heap = (\<lambda>r. if r = 0 then (Node_init 1)\<lparr>nd_fixed := True\<rparr>
                  else (Node_init (int r + 1))\<lparr>nd_force := 5\<rparr>),
      solver = SpringFEASolver_init [0, 1] [\<lparr>el_i = 0, el_j = 1, el_k = 10, el_axial = 0\<rparr>]\<rparr>"

text \<open>
  The single spring after \<^verbatim>\<open>assemble()\<close> has run and the load at node 2 has then been
  changed from 5 to 7: the stored matrix is not zero, and the stored load vector is stale.
\<close>

definition stale_spring :: world where
  "stale_spring =
     (let w = fst (assemble single_spring)
      in w\<lparr>heap := (heap w)(1 := (heap w 1)\<lparr>nd_force := 7\<rparr>)\<rparr>)"

text \<open>
  Three nodes without any constraint and one spring between nodes 1 and 2: node 3 is free
  and coupled to nothing.
\<close>

definition detached_node :: world where
  "detached_node =
     \<lparr>heap = (\<lambda>r. Node_init (int r + 1)),
      solver = SpringFEASolver_init [0, 1, 2] [\<lparr>el_i = 0, el_j = 1, el_k = 1, el_axial = 0\<rparr>]\<rparr>"


section \<open>Assembly in double arithmetic\<close>

text \<open>
  The source's matrices hold IEEE doubles, and \<^verbatim>\<open>K[r, c] += v\<close> rounds the sum to the
  nearest double, ties to the even mantissa. \<open>round_double\<close> is that rounding for finite
  values in the normal range (53-bit mantissa; overflow and subnormal numbers are left
  out): the value is scaled into \<open>[1, 2)\<close> to find its exponent, and rounded to a multiple
  of the unit in the last place.
\<close>

fun normal_exponent :: "nat \<Rightarrow> real \<Rightarrow> int \<Rightarrow> int" where
  "normal_exponent 0 a e = e"
| "normal_exponent (Suc fuel) a e =
     (if 2 \<le> a then normal_exponent fuel (a / 2) (e + 1)
      else if a < 1 then normal_exponent fuel (a * 2) (e - 1)
      else e)"

definition pick_half_even :: "int \<Rightarrow> real \<Rightarrow> int" where
  "pick_half_even f d =
     (if d < 1 / 2 then f else if 1 / 2 < d then f + 1 else if even f then f else f + 1)"

definition round_half_even :: "real \<Rightarrow> int" where
  "round_half_even q = pick_half_even \<lfloor>q\<rfloor> (q - of_int \<lfloor>q\<rfloor>)"

definition ulp_of :: "int \<Rightarrow> real" where
  "ulp_of e = (if 52 \<le> e then 2 ^ nat (e - 52) else 1 / 2 ^ nat (52 - e))"

definition round_to_ulp :: "real \<Rightarrow> real \<Rightarrow> real" where
  "round_to_ulp a ulp = of_int (round_half_even (a / ulp)) * ulp"

definition round_double :: "real \<Rightarrow> real" where
  "round_double x =
     (if x = 0 then 0
      else sgn x * round_to_ulp \<bar>x\<bar> (ulp_of (normal_exponent 2200 \<bar>x\<bar> 0)))"

definition fl_add :: "real \<Rightarrow> real \<Rightarrow> real" where
  "fl_add x y = round_double (x + y)"

text \<open>
  \<^verbatim>\<open>K[r, c] += v\<close>, \<^verbatim>\<open>add_to_global\<close>, the loop of \<^verbatim>\<open>assemble\<close> and \<^verbatim>\<open>assemble\<close>
  itself once more, now with the rounded addition.
\<close>

definition add_at_fl :: "real list list \<Rightarrow> int \<Rightarrow> int \<Rightarrow> real \<Rightarrow> error + real list list" where
  "add_at_fl K r c v =
     bind_err (np_index (length K) r) (\<lambda>a.
     bind_err (np_index (length (K ! a)) c) (\<lambda>b.
       Inr (K[a := (K ! a)[b := fl_add (K ! a ! b) v]])))"

definition add_to_global_fl ::
  "(ref \<Rightarrow> Node) \<Rightarrow> SpringElement \<Rightarrow> real list list \<Rightarrow> error + real list list" where
  "add_to_global_fl h e K =
     (case connectivity h e of (ii, jj) \<Rightarrow>
        bind_err (add_at_fl K ii ii (ke e ! 0 ! 0)) (\<lambda>K1.
        bind_err (add_at_fl K1 ii jj (ke e ! 0 ! 1)) (\<lambda>K2.
        bind_err (add_at_fl K2 jj ii (ke e ! 1 ! 0)) (\<lambda>K3.
        add_at_fl K3 jj jj (ke e ! 1 ! 1)))))"

fun assemble_loop_fl ::
  "(ref \<Rightarrow> Node) \<Rightarrow> SpringElement list \<Rightarrow> real list list \<Rightarrow> error + real list list" where
  "assemble_loop_fl h [] K = Inr K"
| "assemble_loop_fl h (e # es) K = bind_err (add_to_global_fl h e K) (assemble_loop_fl h es)"

definition assemble_fl :: "world \<Rightarrow> world \<times> (error + real list list)" where
  "assemble_fl w =
     (let s = solver w; h = heap w; n = sv_n s
      in case assemble_loop_fl h (sv_elements s) (replicate n (replicate n 0)) of
           Inl err \<Rightarrow> (w, Inl err)
         | Inr K \<Rightarrow>
             (w\<lparr>solver := s\<lparr>K_full := K,
                  F_full := map (\<lambda>nd. nd_force (h nd)) (sv_nodes s),
                  sv_fixed := map (\<lambda>nd. nd_fixed (h nd)) (sv_nodes s),
                  u_known := map (\<lambda>nd. if nd_prescribed (h nd) then nd_u_prescribed (h nd) else 0)
                               (sv_nodes s)\<rparr>\<rparr>,
              Inr K))"

text \<open>
  An addition is exact when rounding leaves the sum as it is. \<open>no_rounding\<close> says that
  every addition \<^verbatim>\<open>assemble\<close> performs on the model is exact.
\<close>

definition exact_at :: "real list list \<Rightarrow> int \<Rightarrow> int \<Rightarrow> real \<Rightarrow> bool" where
  "exact_at K r c v =
     (case np_index (length K) r of
        Inl err \<Rightarrow> True
      | Inr a \<Rightarrow>
          (case np_index (length (K ! a)) c of
             Inl err \<Rightarrow> True
           | Inr b \<Rightarrow> fl_add (K ! a ! b) v = K ! a ! b + v))"

definition exact_element :: "(ref \<Rightarrow> Node) \<Rightarrow> SpringElement \<Rightarrow> real list list \<Rightarrow> bool" where
  "exact_element h e K =
     (case connectivity h e of (ii, jj) \<Rightarrow>
        exact_at K ii ii (ke e ! 0 ! 0) \<and>
        (case add_at K ii ii (ke e ! 0 ! 0) of
           Inl err \<Rightarrow> True
         | Inr K1 \<Rightarrow>
             exact_at K1 ii jj (ke e ! 0 ! 1) \<and>
             (case add_at K1 ii jj (ke e ! 0 ! 1) of
                Inl err \<Rightarrow> True
              | Inr K2 \<Rightarrow>
                  exact_at K2 jj ii (ke e ! 1 ! 0) \<and>
                  (case add_at K2 jj ii (ke e ! 1 ! 0) of
                     Inl err \<Rightarrow> True
                   | Inr K3 \<Rightarrow> exact_at K3 jj jj (ke e ! 1 ! 1)))))"

fun exact_loop :: "(ref \<Rightarrow> Node) \<Rightarrow> SpringElement list \<Rightarrow> real list list \<Rightarrow> bool" where
  "exact_loop h [] K = True"
| "exact_loop h (e # es) K =
     (exact_element h e K \<and>
      (case add_to_global h e K of Inl err \<Rightarrow> True | Inr K' \<Rightarrow> exact_loop h es K'))"

definition no_rounding :: "world \<Rightarrow> bool" where
  "no_rounding w \<longleftrightarrow>
     exact_loop (heap w) (sv_elements (solver w))
       (replicate (sv_n (solver w)) (replicate (sv_n (solver w)) 0))"

text \<open>
  Two nodes and three springs between them whose stiffnesses are the doubles Python reads
  from \<^verbatim>\<open>0.1\<close>, \<^verbatim>\<open>0.2\<close> and \<^verbatim>\<open>0.3\<close>, in this order and in the reverse order.
\<close>

definition double_0_1 :: real where
  "double_0_1 = 3602879701896397 / 2 ^ 55"

definition double_0_2 :: real where
  "double_0_2 = 3602879701896397 / 2 ^ 54"

definition double_0_3 :: real where
  "double_0_3 = 5404319552844595 / 2 ^ 54"

definition three_springs :: world where
  "three_springs =
     \<lparr>heap = (\<lambda>r. Node_init (int r + 1)),
      solver = SpringFEASolver_init [0, 1]
                 [\<lparr>el_i = 0, el_j = 1, el_k = double_0_1, el_axial = 0\<rparr>,
                  \<lparr>el_i = 0, el_j = 1, el_k = double_0_2, el_axial = 0\<rparr>,
                  \<lparr>el_i = 0, el_j = 1, el_k = double_0_3, el_axial = 0\<rparr>]\<rparr>"

definition three_springs_reversed :: world where
  "three_springs_reversed =
     three_springs\<lparr>solver := (solver three_springs)
       \<lparr>sv_elements := rev (sv_elements (solver three_springs))\<rparr>\<rparr>"

text \<open>The single spring with a second spring of stiffness 3 added, in both orders.\<close>

definition two_springs :: world where
  "two_springs =
     single_spring\<lparr>solver := (solver single_spring)
       \<lparr>sv_elements := [\<lparr>el_i = 0, el_j = 1, el_k = 10, el_axial = 0\<rparr>,
                         \<lparr>el_i = 1, el_j = 0, el_k = 3, el_axial = 0\<rparr>]\<rparr>\<rparr>"

section \<open>Element construction\<close>

text \<open>
  Claim C4. Two nodes are the same node when they carry the same id (the id is a node's
  identity). For all nodes \<open>ni\<close>, \<open>nj\<close> and every real \<open>k\<close>, constructing a spring
  element fails exactly when the two ids coincide or \<open>k \<le> 0\<close>; the error is then one of
  the two invalid-element \<^verbatim>\<open>ValueError\<close>s, and in every case the world (all nodes and the
  solver with its elements and assembled arrays) is returned unchanged. When the ids
  differ and \<open>k > 0\<close>, construction succeeds and the new element has axial force 0.
\<close>

theorem SpringElement_init_invalid_iff:
  "fst (SpringElement_init w ni nj k) = w \<and>
   (isl (snd (SpringElement_init w ni nj k)) \<longleftrightarrow>
      nd_id (heap w ni) = nd_id (heap w nj) \<or> k \<le> 0) \<and>
   (\<forall>err. snd (SpringElement_init w ni nj k) = Inl err \<longrightarrow>
      err = ValueError (Identical_nodes (nd_id (heap w ni))) \<or>
      err = ValueError Stiffness_not_positive) \<and>
   (\<forall>e. snd (SpringElement_init w ni nj k) = Inr e \<longrightarrow>
      e = \<lparr>el_i = ni, el_j = nj, el_k = k, el_axial = 0\<rparr>)"
  by (simp add: SpringElement_init_def)

theorem SpringElement_init_invalid_iff_witness:
  "isl (snd (SpringElement_init single_spring 0 0 10)) \<and>
   isl (snd (SpringElement_init single_spring 0 1 0)) \<and>
   snd (SpringElement_init single_spring 0 1 10) =
     Inr \<lparr>el_i = 0, el_j = 1, el_k = 10, el_axial = 0\<rparr> \<and>
   fst (SpringElement_init single_spring 0 0 10) = single_spring"
  using SpringElement_init_invalid_iff[of single_spring 0 0 10]
    SpringElement_init_invalid_iff[of single_spring 0 1 0]
    SpringElement_init_invalid_iff[of single_spring 0 1 10]
  by (simp add: single_spring_def Node_init_def SpringElement_init_def)

section \<open>Assembly, entry by entry\<close>

lemma np_index_eq:
  "np_index n i = (if idx_ok n i then Inr (nidx n i) else Inl IndexError)"
  by (auto simp: np_index_def idx_ok_def nidx_def)

lemma nidx_less: "idx_ok n i \<Longrightarrow> nidx n i < n"
  by (auto simp: idx_ok_def nidx_def)

lemma add_at_fail:
  assumes "square n K" "\<not> (idx_ok n r \<and> idx_ok n c)"
  shows "add_at K r c v = Inl IndexError"
  using assms nidx_less[of n r]
  by (auto simp: add_at_def bind_err_def np_index_eq square_def)

lemma add_at_ok:
  assumes "square n K" "idx_ok n r" "idx_ok n c"
  shows "\<exists>K'. add_at K r c v = Inr K' \<and> square n K' \<and>
           (\<forall>a<n. \<forall>b<n. K' ! a ! b =
              K ! a ! b + (if a = nidx n r \<and> b = nidx n c then v else 0))"
proof -
  let ?a = "nidx n r" and ?b = "nidx n c"
  let ?K' = "K[?a := (K ! ?a)[?b := K ! ?a ! ?b + v]]"
  have a: "?a < n" and b: "?b < n" using assms nidx_less by auto
  have len: "length K = n" "length (K ! ?a) = n"
    using assms(1) a by (auto simp: square_def)
  have eq: "add_at K r c v = Inr ?K'"
    using assms len by (simp add: add_at_def bind_err_def np_index_eq)
  have sq: "square n ?K'"
    using assms(1) a by (auto simp: square_def dest!: set_update_subset_insert[THEN subsetD])
  have ent: "\<forall>a<n. \<forall>b<n. ?K' ! a ! b = K ! a ! b + (if a = ?a \<and> b = ?b then v else 0)"
    using len a b by (auto simp: nth_list_update)
  show ?thesis using eq sq ent by blast
qed

lemma add_to_global_fail:
  assumes "square n K" "\<not> elem_ok h n e"
  shows "add_to_global h e K = Inl IndexError"
proof -
  let ?ii = "nd_dof (h (el_i e))" and ?jj = "nd_dof (h (el_j e))"
  show ?thesis
  proof (cases "idx_ok n ?ii")
    case False
    then have "add_at K ?ii ?ii (ke e ! 0 ! 0) = Inl IndexError"
      using add_at_fail[OF assms(1)] by blast
    then show ?thesis by (simp add: add_to_global_def connectivity_def bind_err_def)
  next
    case True
    then have nj: "\<not> idx_ok n ?jj" using assms(2) by (simp add: elem_ok_def)
    obtain K1 where K1: "add_at K ?ii ?ii (ke e ! 0 ! 0) = Inr K1" "square n K1"
      using add_at_ok[OF assms(1) True True] by blast
    have "add_at K1 ?ii ?jj (ke e ! 0 ! 1) = Inl IndexError"
      using add_at_fail[OF K1(2)] nj by blast
    then show ?thesis using K1(1)
      by (simp add: add_to_global_def connectivity_def bind_err_def)
  qed
qed

lemma add_to_global_ok:
  assumes sq: "square n K" and ok: "elem_ok h n e"
  shows "\<exists>K'. add_to_global h e K = Inr K' \<and> square n K' \<and>
           (\<forall>a<n. \<forall>b<n. K' ! a ! b = K ! a ! b + contrib h n e a b)"
proof -
  let ?ii = "nd_dof (h (el_i e))" and ?jj = "nd_dof (h (el_j e))"
  have oi: "idx_ok n ?ii" and oj: "idx_ok n ?jj" using ok by (auto simp: elem_ok_def)
  obtain K1 where K1: "add_at K ?ii ?ii (ke e ! 0 ! 0) = Inr K1" "square n K1"
    "\<forall>a<n. \<forall>b<n. K1 ! a ! b = K ! a ! b + (if a = nidx n ?ii \<and> b = nidx n ?ii then ke e ! 0 ! 0 else 0)"
    using add_at_ok[OF sq oi oi] by blast
  obtain K2 where K2: "add_at K1 ?ii ?jj (ke e ! 0 ! 1) = Inr K2" "square n K2"
    "\<forall>a<n. \<forall>b<n. K2 ! a ! b = K1 ! a ! b + (if a = nidx n ?ii \<and> b = nidx n ?jj then ke e ! 0 ! 1 else 0)"
    using add_at_ok[OF K1(2) oi oj] by blast
  obtain K3 where K3: "add_at K2 ?jj ?ii (ke e ! 1 ! 0) = Inr K3" "square n K3"
    "\<forall>a<n. \<forall>b<n. K3 ! a ! b = K2 ! a ! b + (if a = nidx n ?jj \<and> b = nidx n ?ii then ke e ! 1 ! 0 else 0)"
    using add_at_ok[OF K2(2) oj oi] by blast
  obtain K4 where K4: "add_at K3 ?jj ?jj (ke e ! 1 ! 1) = Inr K4" "square n K4"
    "\<forall>a<n. \<forall>b<n. K4 ! a ! b = K3 ! a ! b + (if a = nidx n ?jj \<and> b = nidx n ?jj then ke e ! 1 ! 1 else 0)"
    using add_at_ok[OF K3(2) oj oj] by blast
  have eq: "add_to_global h e K = Inr K4"
    using K1(1) K2(1) K3(1) K4(1)
    by (simp add: add_to_global_def connectivity_def bind_err_def)
  have ent: "K4 ! a ! b = K ! a ! b + contrib h n e a b" if "a < n" "b < n" for a b
    using K1(3) K2(3) K3(3) K4(3) that
    by (simp add: contrib_def incidence_def ke_def Let_def)
  show ?thesis using eq K4(2) ent by blast
qed

lemma assemble_loop_fail:
  "square n K \<Longrightarrow> \<not> (\<forall>e \<in> set es. elem_ok h n e) \<Longrightarrow>
     assemble_loop h es K = Inl IndexError"
proof (induction es arbitrary: K)
  case Nil
  then show ?case by simp
next
  case (Cons e es)
  show ?case
  proof (cases "elem_ok h n e")
    case False
    then show ?thesis using add_to_global_fail[OF Cons.prems(1)]
      by (simp add: bind_err_def)
  next
    case True
    then obtain K' where K': "add_to_global h e K = Inr K'" "square n K'"
      using add_to_global_ok[OF Cons.prems(1)] by blast
    have "\<not> (\<forall>e \<in> set es. elem_ok h n e)" using Cons.prems(2) True by simp
    then show ?thesis using Cons.IH[OF K'(2)] K'(1) by (simp add: bind_err_def)
  qed
qed

lemma assemble_loop_ok:
  "square n K \<Longrightarrow> \<forall>e \<in> set es. elem_ok h n e \<Longrightarrow>
     \<exists>K'. assemble_loop h es K = Inr K' \<and> square n K' \<and>
       (\<forall>a<n. \<forall>b<n. K' ! a ! b = K ! a ! b + (\<Sum>e\<leftarrow>es. contrib h n e a b))"
proof (induction es arbitrary: K)
  case Nil
  then show ?case by simp
next
  case (Cons e es)
  then obtain K1 where K1: "add_to_global h e K = Inr K1" "square n K1"
     "\<forall>a<n. \<forall>b<n. K1 ! a ! b = K ! a ! b + contrib h n e a b"
    using add_to_global_ok[of n K h e] by auto
  obtain K' where K': "assemble_loop h es K1 = Inr K'" "square n K'"
     "\<forall>a<n. \<forall>b<n. K' ! a ! b = K1 ! a ! b + (\<Sum>e\<leftarrow>es. contrib h n e a b)"
    using Cons.IH[OF K1(2)] Cons.prems(2) by auto
  have "assemble_loop h (e # es) K = Inr K'" using K1(1) K'(1) by (simp add: bind_err_def)
  moreover have "\<forall>a<n. \<forall>b<n. K' ! a ! b = K ! a ! b + (\<Sum>e\<leftarrow>e # es. contrib h n e a b)"
    using K1(3) K'(3) by simp
  ultimately show ?case using K'(2) by blast
qed

lemma square_zeros: "square n (replicate n (replicate n 0))"
  by (simp add: square_def)

lemma assemble_fail:
  "\<not> elems_ok w \<Longrightarrow> assemble w = (w, Inl IndexError)"
  using assemble_loop_fail[OF square_zeros, where n = "sv_n (solver w)"
        and es = "sv_elements (solver w)" and h = "heap w"]
  by (simp add: assemble_def elems_ok_def Let_def)

lemma assemble_ok:
  assumes "elems_ok w"
  shows "\<exists>K. assemble w = (assembled w K, Inr K) \<and> square (sv_n (solver w)) K \<and>
           (\<forall>a<sv_n (solver w). \<forall>b<sv_n (solver w).
              K ! a ! b = (\<Sum>e\<leftarrow>sv_elements (solver w). contrib (heap w) (sv_n (solver w)) e a b))"
proof -
  let ?n = "sv_n (solver w)"
  obtain K where K: "assemble_loop (heap w) (sv_elements (solver w)) (replicate ?n (replicate ?n 0)) = Inr K"
    "square ?n K"
    "\<forall>a<?n. \<forall>b<?n. K ! a ! b = replicate ?n (replicate ?n 0) ! a ! b +
        (\<Sum>e\<leftarrow>sv_elements (solver w). contrib (heap w) ?n e a b)"
    using assemble_loop_ok[OF square_zeros, where es = "sv_elements (solver w)"
        and h = "heap w" and n = ?n] assms
    by (auto simp: elems_ok_def)
  have "assemble w = (assembled w K, Inr K)"
    using K(1) by (simp add: assemble_def assembled_def Let_def)
  moreover have "\<forall>a<?n. \<forall>b<?n. K ! a ! b = (\<Sum>e\<leftarrow>sv_elements (solver w). contrib (heap w) ?n e a b)"
    using K(3) by simp
  ultimately show ?thesis using K(2) by blast
qed

lemma assemble_cases:
  "(\<not> elems_ok w \<and> assemble w = (w, Inl IndexError)) \<or>
   (elems_ok w \<and> (\<exists>K. assemble w = (assembled w K, Inr K)))"
  using assemble_fail assemble_ok by blast

section \<open>Properties of the assembled matrix\<close>

text \<open>
  Claim C5. For every node list and every element list, the matrix produced by
  \<^verbatim>\<open>assemble\<close> is symmetric: \<open>K[a][b] = K[b][a]\<close> for all DOF pairs. \<^verbatim>\<open>assemble\<close>
  produces a matrix whenever every element's DOFs are valid indices, the matrix it returns
  is the one it stores, and it is \<open>n \<times> n\<close>.
\<close>

theorem assemble_symmetric:
  "(elems_ok w \<longrightarrow> (\<exists>K. snd (assemble w) = Inr K)) \<and>
   (\<forall>K. snd (assemble w) = Inr K \<longrightarrow>
      K_full (solver (fst (assemble w))) = K \<and> square (sv_n (solver w)) K \<and>
      (\<forall>a<sv_n (solver w). \<forall>b<sv_n (solver w). K ! a ! b = K ! b ! a))"
proof (cases "elems_ok w")
  case False
  then show ?thesis by (simp add: assemble_fail)
next
  case True
  then obtain K where K: "assemble w = (assembled w K, Inr K)" "square (sv_n (solver w)) K"
    "\<forall>a<sv_n (solver w). \<forall>b<sv_n (solver w).
       K ! a ! b = (\<Sum>e\<leftarrow>sv_elements (solver w). contrib (heap w) (sv_n (solver w)) e a b)"
    using assemble_ok by blast
  have "contrib (heap w) (sv_n (solver w)) e a b = contrib (heap w) (sv_n (solver w)) e b a" for e a b
    by (simp add: contrib_def)
  then have "\<forall>a<sv_n (solver w). \<forall>b<sv_n (solver w). K ! a ! b = K ! b ! a"
    using K(3) by simp
  then show ?thesis using K(1,2) by (simp add: assembled_def)
qed

theorem assemble_symmetric_witness:
  "elems_ok single_spring \<and> snd (assemble single_spring) = Inr [[10, - 10], [- 10, 10]] \<and>
   K_full (solver (fst (assemble single_spring))) ! 0 ! 1 =
   K_full (solver (fst (assemble single_spring))) ! 1 ! 0"
proof -
  have ok: "elems_ok single_spring"
    by (simp add: elems_ok_def single_spring_def SpringFEASolver_init_def elem_ok_def idx_ok_def
        Node_init_def)
  have K: "snd (assemble single_spring) = Inr [[10, - 10], [- 10, 10]]"
    by code_simp
  have n: "sv_n (solver single_spring) = 2"
    by (simp add: single_spring_def SpringFEASolver_init_def)
  show ?thesis using assemble_symmetric[of single_spring] ok K n by simp
qed

text \<open>
  With exact additions the assembled matrix does not depend on the order of the elements:
  every entry is the sum of the elements' contributions.
\<close>

lemma assemble_exact_order_irrelevant:
  assumes "mset es = mset (sv_elements (solver w))"
  shows "snd (assemble (w\<lparr>solver := (solver w)\<lparr>sv_elements := es\<rparr>\<rparr>)) = snd (assemble w) \<and>
         K_full (solver (fst (assemble (w\<lparr>solver := (solver w)\<lparr>sv_elements := es\<rparr>\<rparr>)))) =
         K_full (solver (fst (assemble w)))"
proof -
  let ?w' = "w\<lparr>solver := (solver w)\<lparr>sv_elements := es\<rparr>\<rparr>"
  let ?n = "sv_n (solver w)"
  have set_eq: "set es = set (sv_elements (solver w))" using assms by (rule mset_eq_setD)
  then have ok_eq: "elems_ok ?w' = elems_ok w" by (simp add: elems_ok_def)
  show ?thesis
  proof (cases "elems_ok w")
    case False
    then show ?thesis using ok_eq assemble_fail[of w] assemble_fail[of ?w'] by simp
  next
    case True
    obtain K where K: "assemble w = (assembled w K, Inr K)" "square ?n K"
      "\<forall>a<?n. \<forall>b<?n. K ! a ! b = (\<Sum>e\<leftarrow>sv_elements (solver w). contrib (heap w) ?n e a b)"
      using assemble_ok[OF True] by blast
    obtain K' where K': "assemble ?w' = (assembled ?w' K', Inr K')" "square ?n K'"
      "\<forall>a<?n. \<forall>b<?n. K' ! a ! b = (\<Sum>e\<leftarrow>es. contrib (heap w) ?n e a b)"
      using assemble_ok[of ?w'] True ok_eq by auto
    have sums: "(\<Sum>e\<leftarrow>es. contrib (heap w) ?n e a b) =
                (\<Sum>e\<leftarrow>sv_elements (solver w). contrib (heap w) ?n e a b)" for a b
    proof -
      have "mset (map (\<lambda>e. contrib (heap w) ?n e a b) es) =
            mset (map (\<lambda>e. contrib (heap w) ?n e a b) (sv_elements (solver w)))"
        using assms by (metis mset_map)
      then show ?thesis by (metis sum_mset_sum_list)
    qed
    have "K' ! a = K ! a" if "a < ?n" for a
    proof (rule nth_equalityI)
      show "length (K' ! a) = length (K ! a)"
        using K(2) K'(2) that by (simp add: square_def)
      fix b assume "b < length (K' ! a)"
      then have "b < ?n" using K'(2) that by (simp add: square_def)
      then show "K' ! a ! b = K ! a ! b" using K(3) K'(3) sums that by simp
    qed
    then have "K' = K"
      using K(2) K'(2) by (auto simp: square_def intro: nth_equalityI)
    then show ?thesis using K(1) K'(1) by (simp add: assembled_def)
  qed
qed

section \<open>Order of assembly in double arithmetic\<close>

lemma add_at_fl_exact: "exact_at K r c v \<Longrightarrow> add_at_fl K r c v = add_at K r c v"
  by (auto simp: exact_at_def add_at_fl_def add_at_def bind_err_def split: sum.splits)

lemma add_to_global_fl_exact:
  assumes "exact_element h e K"
  shows "add_to_global_fl h e K = add_to_global h e K"
proof -
  obtain ii jj where c: "connectivity h e = (ii, jj)" by (cases "connectivity h e")
  have 1: "add_at_fl K ii ii (ke e ! 0 ! 0) = add_at K ii ii (ke e ! 0 ! 0)"
    using assms c by (simp add: exact_element_def add_at_fl_exact)
  show ?thesis
  proof (cases "add_at K ii ii (ke e ! 0 ! 0)")
    case Inl
    then show ?thesis using 1 c by (simp add: add_to_global_fl_def add_to_global_def bind_err_def)
  next
    case (Inr K1)
    then have 2: "add_at_fl K1 ii jj (ke e ! 0 ! 1) = add_at K1 ii jj (ke e ! 0 ! 1)"
      using assms c by (simp add: exact_element_def add_at_fl_exact)
    show ?thesis
    proof (cases "add_at K1 ii jj (ke e ! 0 ! 1)")
      case Inl
      then show ?thesis using 1 2 c \<open>add_at K ii ii (ke e ! 0 ! 0) = Inr K1\<close>
        by (simp add: add_to_global_fl_def add_to_global_def bind_err_def)
    next
      case K2: (Inr K2)
      then have 3: "add_at_fl K2 jj ii (ke e ! 1 ! 0) = add_at K2 jj ii (ke e ! 1 ! 0)"
        using assms c Inr by (simp add: exact_element_def add_at_fl_exact)
      show ?thesis
      proof (cases "add_at K2 jj ii (ke e ! 1 ! 0)")
        case Inl
        then show ?thesis using 1 2 3 c Inr K2
          by (simp add: add_to_global_fl_def add_to_global_def bind_err_def)
      next
        case K3: (Inr K3)
        then have 4: "add_at_fl K3 jj jj (ke e ! 1 ! 1) = add_at K3 jj jj (ke e ! 1 ! 1)"
          using assms c Inr K2 by (simp add: exact_element_def add_at_fl_exact)
        show ?thesis using 1 2 3 4 c Inr K2 K3
          by (simp add: add_to_global_fl_def add_to_global_def bind_err_def)
      qed
    qed
  qed
qed

lemma assemble_loop_fl_exact:
  "exact_loop h es K \<Longrightarrow> assemble_loop_fl h es K = assemble_loop h es K"
proof (induction es arbitrary: K)
  case Nil
  then show ?case by simp
next
  case (Cons e es)
  then have e: "add_to_global_fl h e K = add_to_global h e K"
    by (simp add: add_to_global_fl_exact)
  show ?case
  proof (cases "add_to_global h e K")
    case Inl
    then show ?thesis using e by (simp add: bind_err_def)
  next
    case (Inr K')
    then have "exact_loop h es K'" using Cons.prems by simp
    then show ?thesis using Cons.IH e Inr by (simp add: bind_err_def)
  qed
qed

lemma assemble_fl_exact: "no_rounding w \<Longrightarrow> assemble_fl w = assemble w"
  by (simp add: no_rounding_def assemble_fl_def assemble_def assemble_loop_fl_exact)

text \<open>
  Claim C6, as amended. For every node list and any two orderings of the same multiset of
  elements, the source's \<^verbatim>\<open>assemble\<close>, adding in double arithmetic, returns the same
  result and stores the same global stiffness matrix, provided that none of the additions
  of either assembly rounds.
\<close>

theorem assemble_fl_order_irrelevant:
  assumes "mset es = mset (sv_elements (solver w))"
    and "no_rounding w"
    and "no_rounding (w\<lparr>solver := (solver w)\<lparr>sv_elements := es\<rparr>\<rparr>)"
  shows "snd (assemble_fl (w\<lparr>solver := (solver w)\<lparr>sv_elements := es\<rparr>\<rparr>)) = snd (assemble_fl w) \<and>
         K_full (solver (fst (assemble_fl (w\<lparr>solver := (solver w)\<lparr>sv_elements := es\<rparr>\<rparr>)))) =
         K_full (solver (fst (assemble_fl w)))"
  using assemble_exact_order_irrelevant[OF assms(1)] assemble_fl_exact[OF assms(2)]
    assemble_fl_exact[OF assms(3)]
  by simp

lemma normal_exponent_numeral:
  "normal_exponent (numeral n) a e =
     (if 2 \<le> a then normal_exponent (pred_numeral n) (a / 2) (e + 1)
      else if a < 1 then normal_exponent (pred_numeral n) (a * 2) (e - 1)
      else e)"
  by (simp add: numeral_eq_Suc)

lemmas fl_eval = fl_add_def round_double_def round_to_ulp_def ulp_of_def round_half_even_def
  pick_half_even_def normal_exponent_numeral double_0_1_def double_0_2_def double_0_3_def

lemmas assemble_fl_eval = assemble_fl_def SpringFEASolver_init_def Node_init_def
  add_to_global_fl_def add_at_fl_def connectivity_def ke_def np_index_def bind_err_def Let_def

lemmas exact_eval = no_rounding_def exact_element_def exact_at_def add_to_global_def add_at_def

theorem assemble_fl_order_irrelevant_witness:
  "mset (rev (sv_elements (solver two_springs))) = mset (sv_elements (solver two_springs)) \<and>
   no_rounding two_springs \<and>
   no_rounding (two_springs\<lparr>solver := (solver two_springs)
     \<lparr>sv_elements := rev (sv_elements (solver two_springs))\<rparr>\<rparr>) \<and>
   snd (assemble_fl two_springs) = Inr [[13, - 13], [- 13, 13]] \<and>
   snd (assemble_fl (two_springs\<lparr>solver := (solver two_springs)
     \<lparr>sv_elements := rev (sv_elements (solver two_springs))\<rparr>\<rparr>)) = snd (assemble_fl two_springs)"
proof -
  have m: "mset (rev (sv_elements (solver two_springs))) = mset (sv_elements (solver two_springs))"
    by simp
  have a: "no_rounding two_springs"
    by (simp add: two_springs_def single_spring_def exact_eval assemble_fl_eval fl_eval)
  have b: "no_rounding (two_springs\<lparr>solver := (solver two_springs)
     \<lparr>sv_elements := rev (sv_elements (solver two_springs))\<rparr>\<rparr>)"
    by (simp add: two_springs_def single_spring_def exact_eval assemble_fl_eval fl_eval)
  have c: "snd (assemble_fl two_springs) = Inr [[13, - 13], [- 13, 13]]"
    by (simp add: two_springs_def single_spring_def assemble_fl_eval fl_eval)
  show ?thesis using assemble_fl_order_irrelevant[OF m a b] m a b c by simp
qed

text \<open>
  Claim C6 as it is worded fails on the source's arithmetic. The three springs of
  stiffness \<^verbatim>\<open>0.1\<close>, \<^verbatim>\<open>0.2\<close> and \<^verbatim>\<open>0.3\<close> between nodes 1 and 2 are validly
  constructed and their stiffnesses are doubles. Assembled in this order, the entry
  \<open>K[0][0]\<close> is the double \<^verbatim>\<open>0.6000000000000001\<close>; assembled in the reverse order, it is
  the double \<^verbatim>\<open>0.6\<close>.
\<close>

theorem assemble_fl_order_counterexample:
  "round_double double_0_1 = double_0_1 \<and> round_double double_0_2 = double_0_2 \<and>
   round_double double_0_3 = double_0_3 \<and>
   mset (sv_elements (solver three_springs_reversed)) = mset (sv_elements (solver three_springs)) \<and>
   sv_nodes (solver three_springs_reversed) = sv_nodes (solver three_springs) \<and>
   heap three_springs_reversed = heap three_springs \<and>
   K_full (solver (fst (assemble_fl three_springs))) ! 0 ! 0 = 5404319552844596 / 2 ^ 53 \<and>
   K_full (solver (fst (assemble_fl three_springs_reversed))) ! 0 ! 0 = 5404319552844595 / 2 ^ 53 \<and>
   snd (assemble_fl three_springs_reversed) \<noteq> snd (assemble_fl three_springs)"
proof -
  have d: "round_double double_0_1 = double_0_1 \<and> round_double double_0_2 = double_0_2 \<and>
           round_double double_0_3 = double_0_3"
    by (simp add: fl_eval)
  have m: "mset (sv_elements (solver three_springs_reversed)) = mset (sv_elements (solver three_springs))"
    "sv_nodes (solver three_springs_reversed) = sv_nodes (solver three_springs)"
    "heap three_springs_reversed = heap three_springs"
    by (simp_all add: three_springs_reversed_def)
  have f: "snd (assemble_fl three_springs) =
             Inr [[5404319552844596 / 2 ^ 53, - (5404319552844596 / 2 ^ 53)],
                  [- (5404319552844596 / 2 ^ 53), 5404319552844596 / 2 ^ 53]]"
    by (simp add: three_springs_def assemble_fl_eval fl_eval)
  have b: "snd (assemble_fl three_springs_reversed) =
             Inr [[5404319552844595 / 2 ^ 53, - (5404319552844595 / 2 ^ 53)],
                  [- (5404319552844595 / 2 ^ 53), 5404319552844595 / 2 ^ 53]]"
    by (simp add: three_springs_reversed_def three_springs_def assemble_fl_eval fl_eval)
  have kf: "K_full (solver (fst (assemble_fl three_springs))) ! 0 ! 0 = 5404319552844596 / 2 ^ 53"
    by (simp add: three_springs_def assemble_fl_eval fl_eval)
  have kb: "K_full (solver (fst (assemble_fl three_springs_reversed))) ! 0 ! 0 = 5404319552844595 / 2 ^ 53"
    by (simp add: three_springs_reversed_def three_springs_def assemble_fl_eval fl_eval)
  have "snd (assemble_fl three_springs_reversed) \<noteq> snd (assemble_fl three_springs)"
    unfolding f b by simp
  then show ?thesis using d m kf kb by simp
qed

section \<open>The linear solve returns the solution or detects singularity\<close>

lemma dot_Nil [simp]: "dot [] ys = 0" "dot xs [] = 0"
  by (simp_all add: dot_def)

lemma dot_Cons [simp]: "dot (x # xs) (y # ys) = x * y + dot xs ys"
  by (simp add: dot_def)

lemma dot_zero_right: "\<forall>x \<in> set v. x = 0 \<Longrightarrow> dot xs v = 0"
proof (induction xs arbitrary: v)
  case Nil
  then show ?case by simp
next
  case (Cons a xs)
  then show ?case by (cases v) auto
qed

lemma dot_eliminate:
  "length pas = length ras \<Longrightarrow>
     dot (map2 (\<lambda>p r. r - c * p) pas ras) v = dot ras v - c * dot pas v"
proof (induction pas ras arbitrary: v rule: list_induct2)
  case Nil
  then show ?case by simp
next
  case (Cons p ps r rs)
  then show ?case by (cases v) (simp_all add: algebra_simps)
qed

lemma pivot_row_less: "rows \<noteq> [] \<Longrightarrow> pivot_row rows < length rows"
proof (induction rows)
  case Nil
  then show ?case by simp
next
  case (Cons r rs)
  show ?case
  proof (cases "\<forall>q \<in> set rs. \<bar>lead q\<bar> \<le> \<bar>lead r\<bar>")
    case True
    then show ?thesis by simp
  next
    case False
    then have "rs \<noteq> []" by auto
    then show ?thesis using Cons.IH False by simp
  qed
qed

lemma pivot_row_max: "q \<in> set rows \<Longrightarrow> \<bar>lead q\<bar> \<le> \<bar>lead (rows ! pivot_row rows)\<bar>"
proof (induction rows arbitrary: q)
  case Nil
  then show ?case by simp
next
  case (Cons r rs)
  show ?case
  proof (cases "\<forall>x \<in> set rs. \<bar>lead x\<bar> \<le> \<bar>lead r\<bar>")
    case True
    then show ?thesis using Cons.prems by auto
  next
    case False
    then have piv: "pivot_row (r # rs) = Suc (pivot_row rs)" by simp
    have max_rs: "\<forall>x \<in> set rs. \<bar>lead x\<bar> \<le> \<bar>lead (rs ! pivot_row rs)\<bar>"
      using Cons.IH by blast
    obtain q' where q': "q' \<in> set rs" "\<bar>lead r\<bar> < \<bar>lead q'\<bar>" using False by force
    have "\<bar>lead q'\<bar> \<le> \<bar>lead (rs ! pivot_row rs)\<bar>" using max_rs q'(1) by blast
    then have "\<bar>lead r\<bar> \<le> \<bar>lead (rs ! pivot_row rs)\<bar>" using q'(2) by linarith
    moreover have "q = r \<or> q \<in> set rs" using Cons.prems by auto
    ultimately have "\<bar>lead q\<bar> \<le> \<bar>lead (rs ! pivot_row rs)\<bar>" using max_rs by blast
    then show ?thesis by (simp only: piv nth_Cons_Suc)
  qed
qed

lemma gauss_step:
  assumes "wf_rows (Suc n) rows"
  shows "\<exists>pa pas pb rest.
    set ((pa # pas, pb) # rest) = set rows \<and> length rest = n \<and> length pas = n \<and>
    (\<forall>q \<in> set rows. \<bar>lead q\<bar> \<le> \<bar>pa\<bar>) \<and>
    gauss rows =
       (if pa = 0 then None
        else case gauss (map (eliminate (pa # pas, pb)) rest) of
               None \<Rightarrow> None
             | Some xs \<Rightarrow> Some ((pb - dot pas xs) / pa # xs))"
proof -
  obtain r rs where rows: "rows = r # rs" using assms by (cases rows) (auto simp: wf_rows_def)
  define m where "m = pivot_row rows"
  define sw where "sw = rows[0 := rows ! m, m := r]"
  have m: "m < length rows" unfolding m_def using rows pivot_row_less by blast
  have "mset sw = mset rows"
    unfolding sw_def using mset_swap[of m rows 0] m rows by simp
  then have set_sw: "set sw = set rows" by (rule mset_eq_setD)
  have len_sw: "length sw = Suc n" using assms by (simp add: sw_def wf_rows_def)
  then have "sw \<noteq> []" by auto
  then have sw: "hd sw # tl sw = sw" by simp
  have hd_sw: "hd sw = rows ! m"
    using rows m by (cases m) (simp_all add: sw_def)
  have "hd sw \<in> set sw" using \<open>sw \<noteq> []\<close> by simp
  then have "length (fst (hd sw)) = Suc n" using assms set_sw by (simp add: wf_rows_def)
  then obtain pa pas where p: "fst (hd sw) = pa # pas" "length pas = n"
    by (cases "fst (hd sw)") auto
  define pb where "pb = snd (hd sw)"
  have hd_eq: "hd sw = (pa # pas, pb)" using p(1) pb_def by (cases "hd sw") simp
  have 1: "set ((pa # pas, pb) # tl sw) = set rows"
    using sw set_sw by (simp only: hd_eq[symmetric])
  have 2: "length (tl sw) = n" using len_sw by simp
  have "lead (rows ! m) = pa" using hd_sw p(1) by (simp add: lead_def)
  then have 4: "\<forall>q \<in> set rows. \<bar>lead q\<bar> \<le> \<bar>pa\<bar>"
    using pivot_row_max[of _ rows] by (simp add: m_def)
  have 5: "gauss rows =
       (if pa = 0 then None
        else case gauss (map (eliminate (pa # pas, pb)) (tl sw)) of
               None \<Rightarrow> None
             | Some xs \<Rightarrow> Some ((pb - dot pas xs) / pa # xs))"
    unfolding rows gauss.simps Let_def
    using hd_eq p(1) unfolding sw_def m_def rows pb_def by simp
  show ?thesis
    apply (rule exI[of _ pa], rule exI[of _ pas], rule exI[of _ pb], rule exI[of _ "tl sw"])
    using 1 2 p(2) 4 5 by (intro conjI)
qed

lemma eliminate_row:
  assumes "length (fst q) = Suc n" "length pas = n"
  shows "\<exists>ra ras. fst q = ra # ras \<and> length ras = n \<and> lead q = ra \<and>
    eliminate (pa # pas, pb) q =
       (map2 (\<lambda>p r. r - ra / pa * p) pas ras, snd q - ra / pa * pb)"
proof -
  obtain ra ras where q: "fst q = ra # ras" "length ras = n"
    using assms(1) by (cases "fst q") auto
  then have "q = (ra # ras, snd q)" by (cases q) simp
  then have "eliminate (pa # pas, pb) q =
       (map2 (\<lambda>p r. r - ra / pa * p) pas ras, snd q - ra / pa * pb)"
    using eliminate.simps(1)[of pa pas pb ra ras "snd q"] by simp
  then show ?thesis using q by (simp add: lead_def)
qed

lemma wf_rows_eliminate:
  assumes "\<forall>q \<in> set rest. length (fst q) = Suc n" "length rest = n" "length pas = n"
  shows "wf_rows n (map (eliminate (pa # pas, pb)) rest)"
proof -
  have "length (fst (eliminate (pa # pas, pb) q)) = n" if "q \<in> set rest" for q
  proof -
    have "length (fst q) = Suc n" using assms(1) that by blast
    from eliminate_row[OF this assms(3), of pa pb] obtain ra ras where
      "length ras = n" "eliminate (pa # pas, pb) q =
         (map2 (\<lambda>p r. r - ra / pa * p) pas ras, snd q - ra / pa * pb)" by blast
    then show ?thesis using assms(3) by simp
  qed
  then show ?thesis using assms(2) by (auto simp: wf_rows_def)
qed

lemma gauss_sound:
  "wf_rows n rows \<Longrightarrow> gauss rows = Some xs \<Longrightarrow>
     length xs = n \<and> (\<forall>r \<in> set rows. dot (fst r) xs = snd r)"
proof (induction n arbitrary: rows xs)
  case 0
  then show ?case by (simp add: wf_rows_def)
next
  case (Suc n)
  from gauss_step[OF Suc.prems(1)] obtain pa pas pb rest where
    st: "set ((pa # pas, pb) # rest) = set rows" "length rest = n" "length pas = n"
    "gauss rows =
       (if pa = 0 then None
        else case gauss (map (eliminate (pa # pas, pb)) rest) of
               None \<Rightarrow> None
             | Some xs \<Rightarrow> Some ((pb - dot pas xs) / pa # xs))" by blast
  let ?p = "(pa # pas, pb)"
  have pa: "pa \<noteq> 0" using st(4) Suc.prems(2) by (auto split: if_splits)
  then obtain xs' where xs': "gauss (map (eliminate ?p) rest) = Some xs'"
    "xs = (pb - dot pas xs') / pa # xs'"
    using st(4) Suc.prems(2) by (auto split: option.splits)
  have len: "\<forall>q \<in> set rest. length (fst q) = Suc n"
    using st(1) Suc.prems(1) by (auto simp: wf_rows_def)
  have IH: "length xs' = n" "\<forall>r \<in> set (map (eliminate ?p) rest). dot (fst r) xs' = snd r"
    using Suc.IH[OF wf_rows_eliminate[OF len st(2,3)] xs'(1)] by auto
  have p_ok: "dot (fst ?p) xs = snd ?p" using pa xs'(2) by simp
  have rest_ok: "dot (fst q) xs = snd q" if "q \<in> set rest" for q
  proof -
    have "length (fst q) = Suc n" using len that by blast
    from eliminate_row[OF this st(3), of pa pb] obtain ra ras where
      q: "fst q = ra # ras" "length ras = n" "eliminate ?p q =
         (map2 (\<lambda>p r. r - ra / pa * p) pas ras, snd q - ra / pa * pb)" by blast
    have e1: "dot (fst (eliminate ?p q)) xs' = snd (eliminate ?p q)" using IH(2) that by simp
    have e2: "dot (map2 (\<lambda>p r. r - ra / pa * p) pas ras) xs' =
              dot ras xs' - ra / pa * dot pas xs'"
      by (rule dot_eliminate) (simp add: q(2) st(3))
    have "dot ras xs' - ra / pa * dot pas xs' = snd q - ra / pa * pb"
      using e1 e2 unfolding q(3) fst_conv snd_conv by simp
    then show ?thesis using q(1) xs'(2) pa by (simp add: field_simps)
  qed
  have "\<forall>r \<in> set rows. dot (fst r) xs = snd r"
  proof
    fix r assume "r \<in> set rows"
    then have "r = ?p \<or> r \<in> set rest" using st(1) by auto
    then show "dot (fst r) xs = snd r" using p_ok rest_ok by blast
  qed
  then show ?case using IH(1) xs'(2) by simp
qed

lemma dot_replicate_zero: "dot xs (replicate m 0) = 0"
  by (rule dot_zero_right) simp

lemma gauss_None_kernel:
  "wf_rows n rows \<Longrightarrow> gauss rows = None \<Longrightarrow>
     \<exists>v. length v = n \<and> (\<exists>x \<in> set v. x \<noteq> 0) \<and> (\<forall>r \<in> set rows. dot (fst r) v = 0)"
proof (induction n arbitrary: rows)
  case 0
  then show ?case by (simp add: wf_rows_def)
next
  case (Suc n)
  from gauss_step[OF Suc.prems(1)] obtain pa pas pb rest where
    st: "set ((pa # pas, pb) # rest) = set rows" "length rest = n" "length pas = n"
    "\<forall>q \<in> set rows. \<bar>lead q\<bar> \<le> \<bar>pa\<bar>"
    "gauss rows =
       (if pa = 0 then None
        else case gauss (map (eliminate (pa # pas, pb)) rest) of
               None \<Rightarrow> None
             | Some xs \<Rightarrow> Some ((pb - dot pas xs) / pa # xs))" by blast
  let ?p = "(pa # pas, pb)"
  have len: "\<forall>q \<in> set rows. length (fst q) = Suc n"
    using Suc.prems(1) by (simp add: wf_rows_def)
  then have len_rest: "\<forall>q \<in> set rest. length (fst q) = Suc n" using st(1) by auto
  show ?case
  proof (cases "pa = 0")
    case True
    let ?v = "1 # replicate n (0::real)"
    have "dot (fst q) ?v = 0" if "q \<in> set rows" for q
    proof -
      have "length (fst q) = Suc n" using len that by blast
      then obtain a as where q: "fst q = a # as" by (cases "fst q") auto
      have "\<bar>lead q\<bar> \<le> 0" using st(4) that True by simp
      then have "a = 0" using q by (simp add: lead_def)
      then show ?thesis using q by (simp add: dot_replicate_zero)
    qed
    then have "length ?v = Suc n \<and> (\<exists>x \<in> set ?v. x \<noteq> 0) \<and> (\<forall>r \<in> set rows. dot (fst r) ?v = 0)"
      by simp
    then show ?thesis by blast
  next
    case False
    then have "gauss (map (eliminate ?p) rest) = None"
      using st(5) Suc.prems(2) by (simp split: option.splits)
    from Suc.IH[OF wf_rows_eliminate[OF len_rest st(2,3)] this] obtain v' where
      v': "length v' = n" "\<exists>x \<in> set v'. x \<noteq> 0"
      "\<forall>r \<in> set (map (eliminate ?p) rest). dot (fst r) v' = 0" by blast
    let ?v = "(- dot pas v' / pa) # v'"
    have p_ok: "dot (fst ?p) ?v = 0" using False by simp
    have rest_ok: "dot (fst q) ?v = 0" if "q \<in> set rest" for q
    proof -
      have "length (fst q) = Suc n" using len_rest that by blast
      from eliminate_row[OF this st(3), of pa pb] obtain ra ras where
        q: "fst q = ra # ras" "length ras = n" "eliminate ?p q =
           (map2 (\<lambda>p r. r - ra / pa * p) pas ras, snd q - ra / pa * pb)" by blast
      have e1: "dot (fst (eliminate ?p q)) v' = 0" using v'(3) that by simp
      have e2: "dot (map2 (\<lambda>p r. r - ra / pa * p) pas ras) v' =
                dot ras v' - ra / pa * dot pas v'"
        by (rule dot_eliminate) (simp add: q(2) st(3))
      have "dot ras v' - ra / pa * dot pas v' = 0"
        using e1 e2 unfolding q(3) fst_conv by simp
      then show ?thesis using q(1) False by (simp add: field_simps)
    qed
    have "\<forall>r \<in> set rows. dot (fst r) ?v = 0"
    proof
      fix r assume "r \<in> set rows"
      then have "r = ?p \<or> r \<in> set rest" using st(1) by auto
      then show "dot (fst r) ?v = 0" using p_ok rest_ok by blast
    qed
    moreover have "length ?v = Suc n" using v'(1) by simp
    moreover have "\<exists>x \<in> set ?v. x \<noteq> 0" using v'(2) by auto
    ultimately show ?thesis by blast
  qed
qed

lemma gauss_Some_no_kernel:
  "wf_rows n rows \<Longrightarrow> gauss rows = Some xs \<Longrightarrow> length v = n \<Longrightarrow>
     \<forall>r \<in> set rows. dot (fst r) v = 0 \<Longrightarrow> \<forall>x \<in> set v. x = 0"
proof (induction n arbitrary: rows xs v)
  case 0
  then show ?case by simp
next
  case (Suc n)
  from gauss_step[OF Suc.prems(1)] obtain pa pas pb rest where
    st: "set ((pa # pas, pb) # rest) = set rows" "length rest = n" "length pas = n"
    "gauss rows =
       (if pa = 0 then None
        else case gauss (map (eliminate (pa # pas, pb)) rest) of
               None \<Rightarrow> None
             | Some xs \<Rightarrow> Some ((pb - dot pas xs) / pa # xs))" by blast
  let ?p = "(pa # pas, pb)"
  have pa: "pa \<noteq> 0" using st(4) Suc.prems(2) by (auto split: if_splits)
  then obtain xs' where xs': "gauss (map (eliminate ?p) rest) = Some xs'"
    using st(4) Suc.prems(2) by (auto split: option.splits)
  have len_rest: "\<forall>q \<in> set rest. length (fst q) = Suc n"
    using st(1) Suc.prems(1) by (auto simp: wf_rows_def)
  obtain v1 v' where v: "v = v1 # v'" "length v' = n"
    using Suc.prems(3) by (cases v) auto
  have p_in: "?p \<in> set rows" using st(1) by auto
  have p0: "pa * v1 + dot pas v' = 0" using Suc.prems(4) p_in v(1) by fastforce
  have "dot (fst r) v' = 0" if r_in: "r \<in> set (map (eliminate ?p) rest)" for r
  proof -
    obtain q where q_in: "q \<in> set rest" and r: "r = eliminate ?p q"
      using r_in by auto
    have "length (fst q) = Suc n" using len_rest q_in by blast
    from eliminate_row[OF this st(3), of pa pb] obtain ra ras where
      q: "fst q = ra # ras" "length ras = n" "eliminate ?p q =
         (map2 (\<lambda>p r. r - ra / pa * p) pas ras, snd q - ra / pa * pb)" by blast
    have "q \<in> set rows" using q_in st(1) by auto
    then have q0: "ra * v1 + dot ras v' = 0" using Suc.prems(4) q(1) v(1) by fastforce
    have e2: "dot (map2 (\<lambda>p r. r - ra / pa * p) pas ras) v' =
              dot ras v' - ra / pa * dot pas v'"
      by (rule dot_eliminate) (simp add: q(2) st(3))
    have "dot ras v' - ra / pa * dot pas v' = 0"
    proof -
      have "dot ras v' = - (ra * v1)" using q0 by linarith
      moreover have "dot pas v' = - (pa * v1)" using p0 by linarith
      ultimately show ?thesis using pa by simp
    qed
    then show ?thesis unfolding r q(3) fst_conv using e2 by simp
  qed
  then have v'0: "\<forall>x \<in> set v'. x = 0"
    using Suc.IH[OF wf_rows_eliminate[OF len_rest st(2,3)] xs' v(2)] by blast
  then have "dot pas v' = 0" by (rule dot_zero_right)
  then have "v1 = 0" using p0 pa by simp
  then show ?case using v'0 v(1) by simp
qed

lemma wf_rows_zip:
  assumes "square n A" "length b = n"
  shows "wf_rows n (zip A b)"
  using assms by (auto simp: wf_rows_def square_def dest: set_zip_leftD)

lemma set_zip_fst:
  assumes "length b = length A"
  shows "(\<forall>r \<in> set (zip A b). P (fst r)) \<longleftrightarrow> (\<forall>a \<in> set A. P a)"
proof -
  have "map fst (zip A b) = A" using assms by simp
  then have "set A = fst ` set (zip A b)" by (metis set_map)
  then show ?thesis by auto
qed

lemma linalg_solve_sound:
  assumes "square n A" "linalg_solve A b = Some x"
  shows "length x = n \<and> length b = n \<and> matvec A x = b"
proof -
  have lenA: "length A = n" using assms(1) by (simp add: square_def)
  have shape: "length b = length A \<and> (\<forall>r \<in> set A. length r = length A)"
    using assms(2) by (simp add: linalg_solve_def split: if_splits)
  then have g: "gauss (zip A b) = Some x" using assms(2) by (simp add: linalg_solve_def)
  have lenb: "length b = n" using shape lenA by simp
  from gauss_sound[OF wf_rows_zip[OF assms(1) lenb] g]
  have x: "length x = n" "\<forall>r \<in> set (zip A b). dot (fst r) x = snd r" by auto
  have "matvec A x = b"
  proof (rule nth_equalityI)
    show "length (matvec A x) = length b" using lenA lenb by (simp add: matvec_def)
    fix i assume "i < length (matvec A x)"
    then have i: "i < n" using lenA by (simp add: matvec_def)
    then have "(A ! i, b ! i) \<in> set (zip A b)"
      using lenA lenb by (metis length_zip min.idem nth_mem nth_zip)
    then have "dot (A ! i) x = b ! i" using x(2) by fastforce
    then show "matvec A x ! i = b ! i" using i lenA by (simp add: matvec_def)
  qed
  then show ?thesis using x(1) lenb by simp
qed

lemma linalg_solve_None_iff:
  assumes "square n A" "length b = n"
  shows "linalg_solve A b = None \<longleftrightarrow> singular A"
proof -
  have lenA: "length A = n" using assms(1) by (simp add: square_def)
  have g: "linalg_solve A b = gauss (zip A b)"
    using assms lenA by (simp add: linalg_solve_def square_def)
  have wf: "wf_rows n (zip A b)" by (rule wf_rows_zip[OF assms])
  have lens: "length b = length A" using assms(2) lenA by simp
  show ?thesis
  proof
    assume "linalg_solve A b = None"
    then have "gauss (zip A b) = None" using g by simp
    from gauss_None_kernel[OF wf this] obtain v where
      v: "length v = n" "\<exists>x \<in> set v. x \<noteq> 0" "\<forall>r \<in> set (zip A b). dot (fst r) v = 0" by blast
    have "\<forall>a \<in> set A. dot a v = 0"
      using v(3) set_zip_fst[OF lens, of "\<lambda>a. dot a v = 0"] by simp
    then show "singular A" using v(1,2) lenA by (auto simp: singular_def kernel_vec_def)
  next
    assume "singular A"
    then obtain v where v: "length v = n" "\<exists>x \<in> set v. x \<noteq> 0" "\<forall>a \<in> set A. dot a v = 0"
      using lenA by (auto simp: singular_def kernel_vec_def)
    have k: "\<forall>r \<in> set (zip A b). dot (fst r) v = 0"
      using v(3) set_zip_fst[OF lens, of "\<lambda>a. dot a v = 0"] by simp
    show "linalg_solve A b = None"
    proof (rule ccontr)
      assume "linalg_solve A b \<noteq> None"
      then obtain xs where "gauss (zip A b) = Some xs" using g by auto
      from gauss_Some_no_kernel[OF wf this v(1) k] show False using v(2) by blast
    qed
  qed
qed

section \<open>What solving leaves untouched\<close>

lemma solve_assembled_eq:
  "solve_assembled w =
     (case solution_of (solver w) of
        None \<Rightarrow> (w, Inl (ValueError Singular_stiffness))
      | Some sol \<Rightarrow> write_back w sol)"
  by (simp add: solve_assembled_def solution_of_def Let_def split: option.splits)

lemma write_u_inputs: "same_inputs (write_u h xs u r) (h r)"
proof (induction xs arbitrary: h)
  case Nil
  then show ?case by (simp add: same_inputs_def)
next
  case (Cons x xs)
  obtain i nd where x: "x = (i, nd)" by (cases x)
  have "same_inputs (write_u (h(nd := (h nd)\<lparr>nd_u := u ! i\<rparr>)) xs u r)
          ((h(nd := (h nd)\<lparr>nd_u := u ! i\<rparr>)) r)"
    by (rule Cons.IH)
  then show ?case unfolding x by (simp add: same_inputs_def split: if_splits)
qed

lemma write_axial_inputs:
  "list_all2 same_element_inputs (fst (write_axial h u es)) es"
proof (induction es)
  case Nil
  then show ?case by simp
next
  case (Cons e es)
  show ?case
  proof (cases "axial_force h e u")
    case (Inl err)
    then show ?thesis
      by (simp add: list_all2_refl same_element_inputs_def)
  next
    case (Inr f)
    then show ?thesis using Cons.IH
      by (auto simp: same_element_inputs_def split: prod.splits)
  qed
qed

lemma write_back_solver:
  "same_arrays (solver (fst (write_back w sol))) (solver w)"
  by (simp add: write_back_def same_arrays_def Let_def split: prod.splits)

lemma write_back_heap:
  "same_inputs (heap (fst (write_back w sol)) r) (heap w r)"
  by (simp add: write_back_def Let_def write_u_inputs split: prod.splits)

lemma write_back_elements:
  "list_all2 same_element_inputs (sv_elements (solver (fst (write_back w sol)))) (sv_elements (solver w))"
proof -
  obtain u R fr fx where sol: "sol = (u, R, fr, fx)" by (cases sol)
  let ?h = "write_u (heap w) (enumerate 0 (sv_nodes (solver w))) u"
  have "sv_elements (solver (fst (write_back w sol))) = fst (write_axial ?h u (sv_elements (solver w)))"
    unfolding sol by (simp add: write_back_def Let_def split: prod.splits)
  then show ?thesis using write_axial_inputs by simp
qed

lemma write_back_result:
  "snd (write_back w sol) = Inr sol' \<Longrightarrow> sol' = sol"
  by (auto simp: write_back_def Let_def split: prod.splits option.splits)

lemma same_inputs_refl: "same_inputs a a"
  by (simp add: same_inputs_def)

lemma same_element_inputs_refl: "list_all2 same_element_inputs es es"
  by (simp add: list_all2_refl same_element_inputs_def)

lemma solve_assembled_heap:
  "same_inputs (heap (fst (solve_assembled w)) r) (heap w r)"
  by (cases "solution_of (solver w)")
    (simp_all add: solve_assembled_eq same_inputs_refl write_back_heap)

lemma solve_assembled_elements:
  "list_all2 same_element_inputs
     (sv_elements (solver (fst (solve_assembled w)))) (sv_elements (solver w))"
  by (cases "solution_of (solver w)")
    (simp_all add: solve_assembled_eq same_element_inputs_refl write_back_elements)

lemma solve_assembled_arrays:
  "same_arrays (solver (fst (solve_assembled w))) (solver w)"
  by (cases "solution_of (solver w)")
    (simp_all add: solve_assembled_eq write_back_solver, simp add: same_arrays_def)

lemma assembled_frame:
  "heap (assembled w K) = heap w"
  "sv_elements (solver (assembled w K)) = sv_elements (solver w)"
  "sv_nodes (solver (assembled w K)) = sv_nodes (solver w)"
  "sv_n (solver (assembled w K)) = sv_n (solver w)"
  by (simp_all add: assembled_def)

lemma assemble_frame:
  "heap (fst (assemble w)) = heap w"
  "sv_elements (solver (fst (assemble w))) = sv_elements (solver w)"
  "sv_nodes (solver (fst (assemble w))) = sv_nodes (solver w)"
  "sv_n (solver (fst (assemble w))) = sv_n (solver w)"
  using assemble_cases[of w] by (auto simp: assembled_frame)

lemma solve_cases:
  "solve w = solve_assembled w \<or>
   solve w = (w, Inl IndexError) \<or>
   (\<exists>K. assemble w = (assembled w K, Inr K) \<and> solve w = solve_assembled (assembled w K))"
  using assemble_cases[of w] by (auto simp: solve_def)

text \<open>
  Claim C10. \<^verbatim>\<open>solve\<close>, whether it succeeds or fails, leaves the input fields of
  every node (id, load, constrained flag, prescribed flag, prescribed value, DOF) and of
  every element (the two node references and the stiffness) as they were, and keeps the
  node list; \<^verbatim>\<open>assemble\<close> changes no node and no element at all. Of the nodes and
  elements, only the solved displacements and the axial forces can change.
\<close>

theorem solve_frame:
  "(\<forall>r. same_inputs (heap (fst (solve w)) r) (heap w r)) \<and>
   list_all2 same_element_inputs (sv_elements (solver (fst (solve w)))) (sv_elements (solver w)) \<and>
   sv_nodes (solver (fst (solve w))) = sv_nodes (solver w) \<and>
   heap (fst (assemble w)) = heap w \<and>
   sv_elements (solver (fst (assemble w))) = sv_elements (solver w) \<and>
   sv_nodes (solver (fst (assemble w))) = sv_nodes (solver w)"
proof -
  consider (plain) "solve w = solve_assembled w"
    | (fail) "solve w = (w, Inl IndexError)"
    | (asm) K where "solve w = solve_assembled (assembled w K)"
    using solve_cases[of w] by blast
  then have "(\<forall>r. same_inputs (heap (fst (solve w)) r) (heap w r)) \<and>
   list_all2 same_element_inputs (sv_elements (solver (fst (solve w)))) (sv_elements (solver w)) \<and>
   sv_nodes (solver (fst (solve w))) = sv_nodes (solver w)"
  proof cases
    case plain
    then show ?thesis
      using solve_assembled_heap[of w] solve_assembled_elements[of w] solve_assembled_arrays[of w]
      by (simp add: same_arrays_def)
  next
    case fail
    then show ?thesis by (simp add: same_inputs_refl same_element_inputs_refl)
  next
    case asm
    then show ?thesis
      using solve_assembled_heap[of "assembled w K"] solve_assembled_elements[of "assembled w K"]
        solve_assembled_arrays[of "assembled w K"]
      by (simp add: same_arrays_def assembled_frame)
  qed
  then show ?thesis by (simp add: assemble_frame)
qed

theorem solve_frame_witness:
  "same_inputs (heap (fst (solve single_spring)) 1) (heap single_spring 1) \<and>
   list_all2 same_element_inputs (sv_elements (solver (fst (solve single_spring))))
     [\<lparr>el_i = 0, el_j = 1, el_k = 10, el_axial = 0\<rparr>] \<and>
   sv_nodes (solver (fst (solve single_spring))) = [0, 1]"
proof -
  have e: "sv_elements (solver single_spring) = [\<lparr>el_i = 0, el_j = 1, el_k = 10, el_axial = 0\<rparr>]"
    and n: "sv_nodes (solver single_spring) = [0, 1]"
    by (simp_all add: single_spring_def SpringFEASolver_init_def)
  show ?thesis using solve_frame[of single_spring] unfolding e n by blast
qed

section \<open>Solving again, and solving under a different load\<close>

lemma solution_of_cong:
  "same_arrays s t \<Longrightarrow> solution_of s = solution_of t"
  unfolding same_arrays_def solution_of_def by (elim conjE) (simp only:)

lemma connectivity_cong:
  "\<forall>r. nd_dof (h' r) = nd_dof (h r) \<Longrightarrow> same_element_inputs e' e \<Longrightarrow>
     connectivity h' e' = connectivity h e"
  by (simp add: connectivity_def same_element_inputs_def)

lemma axial_force_cong:
  "\<forall>r. nd_dof (h' r) = nd_dof (h r) \<Longrightarrow> same_element_inputs e' e \<Longrightarrow>
     axial_force h' e' u = axial_force h e u"
  using connectivity_cong[of h' h e' e]
  by (simp add: axial_force_def elongation_def same_element_inputs_def)

lemma add_to_global_cong:
  "\<forall>r. nd_dof (h' r) = nd_dof (h r) \<Longrightarrow> same_element_inputs e' e \<Longrightarrow>
     add_to_global h' e' K = add_to_global h e K"
  using connectivity_cong[of h' h e' e]
  by (simp add: add_to_global_def ke_def same_element_inputs_def)

lemma assemble_loop_cong:
  "list_all2 same_element_inputs es' es \<Longrightarrow> \<forall>r. nd_dof (h' r) = nd_dof (h r) \<Longrightarrow>
     assemble_loop h' es' K = assemble_loop h es K"
proof (induction es' es arbitrary: K rule: list_all2_induct)
  case Nil
  then show ?case by simp
next
  case (Cons e' es' e es)
  have "add_to_global h' e' K = add_to_global h e K"
    using add_to_global_cong Cons.prems Cons.hyps(1) by blast
  then show ?case using Cons.IH[OF Cons.prems] by (simp add: bind_err_def split: sum.splits)
qed

text \<open>The arrays \<^verbatim>\<open>assemble\<close> would store are a function of the input fields alone.\<close>

lemma assemble_cong:
  assumes "\<forall>r. same_inputs (heap w' r) (heap w r)"
    and "list_all2 same_element_inputs (sv_elements (solver w')) (sv_elements (solver w))"
    and "sv_nodes (solver w') = sv_nodes (solver w)" "sv_n (solver w') = sv_n (solver w)"
  shows "snd (assemble w') = snd (assemble w) \<and>
         (\<forall>K. snd (assemble w) = Inr K \<longrightarrow>
            assemble w' = (assembled w' K, Inr K) \<and> assemble w = (assembled w K, Inr K) \<and>
            F_full (solver (assembled w' K)) = F_full (solver (assembled w K)) \<and>
            sv_fixed (solver (assembled w' K)) = sv_fixed (solver (assembled w K)) \<and>
            u_known (solver (assembled w' K)) = u_known (solver (assembled w K)))"
proof -
  have dof: "\<forall>r. nd_dof (heap w' r) = nd_dof (heap w r)"
    using assms(1) by (simp add: same_inputs_def)
  have loop: "assemble_loop (heap w') (sv_elements (solver w')) K0 =
              assemble_loop (heap w) (sv_elements (solver w)) K0" for K0
    using assemble_loop_cong[OF assms(2) dof] .
  have fields: "nd_force (heap w' r) = nd_force (heap w r)" "nd_fixed (heap w' r) = nd_fixed (heap w r)"
    "nd_prescribed (heap w' r) = nd_prescribed (heap w r)"
    "nd_u_prescribed (heap w' r) = nd_u_prescribed (heap w r)" for r
    using assms(1) by (simp_all add: same_inputs_def)
  show ?thesis
    by (cases "assemble_loop (heap w) (sv_elements (solver w))
                (replicate (sv_n (solver w)) (replicate (sv_n (solver w)) 0))")
      (simp_all add: assemble_def assembled_def Let_def loop assms(3,4) fields)
qed

lemma write_axial_idem:
  "\<forall>r. nd_dof (h' r) = nd_dof (h r) \<Longrightarrow> write_axial h u es = (es1, None) \<Longrightarrow>
     write_axial h' u es1 = (es1, None)"
proof (induction es arbitrary: es1)
  case Nil
  then show ?case by simp
next
  case (Cons e es)
  from Cons.prems(2) obtain f es' where
    f: "axial_force h e u = Inr f" and es': "write_axial h u es = (es', None)"
    and es1: "es1 = e\<lparr>el_axial := f\<rparr> # es'"
    by (auto split: sum.splits prod.splits)
  have "axial_force h' (e\<lparr>el_axial := f\<rparr>) u = axial_force h e u"
    using axial_force_cong[OF Cons.prems(1), of "e\<lparr>el_axial := f\<rparr>" e u]
    by (simp add: same_element_inputs_def)
  then show ?case using f Cons.IH[OF Cons.prems(1) es'] es1 by simp
qed

lemma write_back_again:
  assumes "write_back w sol = (w1, Inr sol)"
  shows "\<exists>w2. write_back w1 sol = (w2, Inr sol) \<and>
           sv_elements (solver w2) = sv_elements (solver w1)"
proof -
  obtain u R fr fx where sol: "sol = (u, R, fr, fx)" by (cases sol)
  let ?h = "write_u (heap w) (enumerate 0 (sv_nodes (solver w))) u"
  obtain es1 where ax: "write_axial ?h u (sv_elements (solver w)) = (es1, None)"
    and w1: "w1 = w\<lparr>heap := ?h, solver := (solver w)\<lparr>sv_elements := es1\<rparr>\<rparr>"
    using assms unfolding sol write_back_def Let_def
    by (auto split: prod.splits option.splits)
  let ?h' = "write_u (heap w1) (enumerate 0 (sv_nodes (solver w1))) u"
  have "\<forall>r. nd_dof (?h' r) = nd_dof (?h r)"
    using write_u_inputs[of "heap w1" "enumerate 0 (sv_nodes (solver w1))" u] w1
    by (simp add: same_inputs_def)
  from write_axial_idem[OF this ax]
  have "write_axial ?h' u (sv_elements (solver w1)) = (es1, None)" using w1 by simp
  then show ?thesis unfolding sol write_back_def Let_def using w1 by simp
qed

lemma solve_assembled_Inr:
  assumes "solve_assembled w = (w1, Inr sol)"
  shows "solution_of (solver w) = Some sol \<and> write_back w sol = (w1, Inr sol)"
proof (cases "solution_of (solver w)")
  case None
  then show ?thesis using assms by (simp add: solve_assembled_eq)
next
  case (Some sol')
  then have wb: "write_back w sol' = (w1, Inr sol)" using assms by (simp add: solve_assembled_eq)
  then have "sol = sol'" using write_back_result[of w sol' sol] by simp
  then show ?thesis using Some wb by simp
qed

lemma solve_assembled_again:
  assumes "solve_assembled w = (w1, Inr sol)"
  shows "\<exists>w2. solve_assembled w1 = (w2, Inr sol) \<and>
           sv_elements (solver w2) = sv_elements (solver w1)"
proof -
  have s: "solution_of (solver w) = Some sol" and wb: "write_back w sol = (w1, Inr sol)"
    using solve_assembled_Inr[OF assms] by auto
  have "same_arrays (solver w1) (solver w)"
    using write_back_solver[of w sol] wb by simp
  then have "solution_of (solver w1) = Some sol" using s solution_of_cong by metis
  then show ?thesis using write_back_again[OF wb] by (simp add: solve_assembled_eq)
qed

lemma assembled_id:
  assumes "K_full (solver w) = K"
    and "F_full (solver (assembled w K)) = F_full (solver w)"
    and "sv_fixed (solver (assembled w K)) = sv_fixed (solver w)"
    and "u_known (solver (assembled w K)) = u_known (solver w)"
  shows "assembled w K = w"
  using assms by (simp add: assembled_def)

lemma solve_Inr_cases:
  assumes "solve w = (w1, Inr sol)"
  shows "(matrix_sum (K_full (solver w)) \<noteq> 0 \<and> solve_assembled w = (w1, Inr sol)) \<or>
         (\<exists>K. matrix_sum (K_full (solver w)) = 0 \<and> assemble w = (assembled w K, Inr K) \<and>
               solve_assembled (assembled w K) = (w1, Inr sol))"
  using assms assemble_cases[of w] by (auto simp: solve_def split: if_splits)

lemma single_spring_solved:
  "solve single_spring = (fst (solve single_spring), Inr ([0, 1 / 2], [- 5, 0], [1], [0]))"
proof (rule prod_eqI)
  show "snd (solve single_spring) = snd (fst (solve single_spring), Inr ([0, 1 / 2], [- 5, 0], [1], [0]))"
    by code_simp
qed simp

text \<open>
  Claim C8. When \<^verbatim>\<open>solve\<close> has returned, calling it again on the state it left, with no
  change to nodes or elements in between, returns the same displacement vector, the same
  reaction vector and the same index lists, and leaves the same axial forces.
\<close>

theorem solve_twice:
  assumes "solve w = (w1, Inr sol)"
  shows "\<exists>w2. solve w1 = (w2, Inr sol) \<and>
           element_forces (solver w2) = element_forces (solver w1)"
proof -
  have again: "\<exists>w2. solve_assembled w1 = (w2, Inr sol) \<and>
                 sv_elements (solver w2) = sv_elements (solver w1)"
    if "solve_assembled wa = (w1, Inr sol)" for wa
    using solve_assembled_again[OF that] .
  have same: "solve w1 = solve_assembled w1"
  proof (cases "matrix_sum (K_full (solver w1)) = 0")
    case False
    then show ?thesis by (simp add: solve_def)
  next
    case True
    from solve_Inr_cases[OF assms] show ?thesis
    proof (elim disjE conjE exE)
      assume "matrix_sum (K_full (solver w)) \<noteq> 0" and sa: "solve_assembled w = (w1, Inr sol)"
      moreover have "K_full (solver w1) = K_full (solver w)"
        using solve_assembled_arrays[of w] sa by (simp add: same_arrays_def)
      ultimately show ?thesis using True by simp
    next
      fix K
      assume asm: "assemble w = (assembled w K, Inr K)"
        and sa: "solve_assembled (assembled w K) = (w1, Inr sol)"
      let ?wa = "assembled w K"
      have arr: "same_arrays (solver w1) (solver ?wa)"
        using solve_assembled_arrays[of ?wa] sa by simp
      have hp: "\<forall>r. same_inputs (heap w1 r) (heap w r)"
        using solve_assembled_heap[of ?wa] sa by (simp add: assembled_frame)
      have el: "list_all2 same_element_inputs (sv_elements (solver w1)) (sv_elements (solver w))"
        using solve_assembled_elements[of ?wa] sa by (simp add: assembled_frame)
      have nd: "sv_nodes (solver w1) = sv_nodes (solver w)" "sv_n (solver w1) = sv_n (solver w)"
        using arr by (simp_all add: same_arrays_def assembled_frame)
      have K: "snd (assemble w) = Inr K" using asm by simp
      from assemble_cong[OF hp el nd] K
      have a1: "assemble w1 = (assembled w1 K, Inr K)"
        and f: "F_full (solver (assembled w1 K)) = F_full (solver ?wa)"
        "sv_fixed (solver (assembled w1 K)) = sv_fixed (solver ?wa)"
        "u_known (solver (assembled w1 K)) = u_known (solver ?wa)"
        by blast+
      have "K_full (solver w1) = K" using arr by (simp add: same_arrays_def assembled_def)
      moreover have "F_full (solver ?wa) = F_full (solver w1)"
        "sv_fixed (solver ?wa) = sv_fixed (solver w1)" "u_known (solver ?wa) = u_known (solver w1)"
        using arr by (simp_all add: same_arrays_def)
      ultimately have "assembled w1 K = w1" using f by (intro assembled_id) simp_all
      then show ?thesis using a1 True by (simp add: solve_def)
    qed
  qed
  obtain wa where "solve_assembled wa = (w1, Inr sol)"
    using solve_Inr_cases[OF assms] by blast
  from again[OF this] show ?thesis using same by (auto simp: element_forces_def)
qed

theorem solve_twice_witness:
  "snd (solve single_spring) = Inr ([0, 1 / 2], [- 5, 0], [1], [0]) \<and>
   (\<exists>w2. solve (fst (solve single_spring)) = (w2, Inr ([0, 1 / 2], [- 5, 0], [1], [0])) \<and>
         element_forces (solver w2) = element_forces (solver (fst (solve single_spring))))"
  using solve_twice[OF single_spring_solved] single_spring_solved
  by (metis snd_conv)

lemma set_np_where: "set (np_where bs) = {i. i < length bs \<and> bs ! i}"
  by (auto simp: np_where_def)

lemma write_axial_cong:
  "\<forall>r. nd_dof (h' r) = nd_dof (h r) \<Longrightarrow> write_axial h' u es = write_axial h u es"
proof (induction es)
  case Nil
  then show ?case by simp
next
  case (Cons e es)
  have "axial_force h' e u = axial_force h e u"
    using axial_force_cong[OF Cons.prems, of e e u] by (simp add: same_element_inputs_def)
  then show ?case using Cons.IH[OF Cons.prems] by (simp split: sum.splits)
qed

lemma write_back_cong:
  assumes "\<forall>r. nd_dof (heap w' r) = nd_dof (heap w r)"
    and "sv_nodes (solver w') = sv_nodes (solver w)"
    and "sv_elements (solver w') = sv_elements (solver w)"
    and "write_back w (u, R, fr, fx) = (w1, Inr sol)"
  shows "\<exists>w1'. write_back w' (u, R', fr, fx) = (w1', Inr (u, R', fr, fx)) \<and>
           sv_elements (solver w1') = sv_elements (solver w1)"
proof -
  let ?h = "write_u (heap w) (enumerate 0 (sv_nodes (solver w))) u"
  let ?h' = "write_u (heap w') (enumerate 0 (sv_nodes (solver w))) u"
  obtain es1 where ax: "write_axial ?h u (sv_elements (solver w)) = (es1, None)"
    and w1: "sv_elements (solver w1) = es1"
    using assms(4) unfolding write_back_def Let_def
    by (auto split: prod.splits option.splits)
  have "\<forall>r. nd_dof (?h' r) = nd_dof (?h r)"
    using write_u_inputs[of "heap w'" _ u] write_u_inputs[of "heap w" _ u] assms(1)
    by (simp add: same_inputs_def)
  from write_axial_cong[OF this]
  have "write_axial ?h' u (sv_elements (solver w)) = (es1, None)" using ax by simp
  then show ?thesis unfolding write_back_def Let_def using w1 assms(2,3) by simp
qed

lemma solution_of_load:
  assumes "solution_of s = Some (u, R, fr, fx)"
    and "K_full s' = K_full s" "sv_fixed s' = sv_fixed s" "u_known s' = u_known s"
    and "sv_n s' = sv_n s"
    and "gather (F_full s') (np_where (map Not (sv_fixed s))) =
         gather (F_full s) (np_where (map Not (sv_fixed s)))"
  shows "solution_of s' = Some (u, vsub (matvec (K_full s) u) (F_full s'), fr, fx) \<and>
         R = vsub (matvec (K_full s) u) (F_full s)"
  using assms(1) unfolding solution_of_def Let_def assms(2-6)
  by (auto split: if_splits option.splits)

lemma vsub_nth:
  "i < length xs \<Longrightarrow> i < length ys \<Longrightarrow> vsub xs ys ! i = xs ! i - ys ! i"
  by (simp add: vsub_def)

lemma length_vsub: "length (vsub xs ys) = min (length xs) (length ys)"
  by (simp add: vsub_def)

text \<open>
  Claim C9. Take a node \<open>r\<close> that is constrained and change nothing but the load applied
  at it. If \<^verbatim>\<open>solve\<close> returned for the original model, it returns for the changed one
  with the same displacements and index lists and leaves the same axial force in every
  element; the reaction vector has the same length and can differ only at the positions
  of node \<open>r\<close>.
\<close>

theorem load_on_constrained_node:
  assumes "nd_fixed (heap w r)"
    and "solve w = (w1, Inr (u, R, fr, fx))"
  shows "\<exists>w1' R'.
           solve (w\<lparr>heap := (heap w)(r := (heap w r)\<lparr>nd_force := f\<rparr>)\<rparr>) =
             (w1', Inr (u, R', fr, fx)) \<and>
           element_forces (solver w1') = element_forces (solver w1) \<and>
           length R' = length R \<and>
           (\<forall>i<length R. sv_nodes (solver w) ! i \<noteq> r \<longrightarrow> R' ! i = R ! i)"
proof -
  let ?w' = "w\<lparr>heap := (heap w)(r := (heap w r)\<lparr>nd_force := f\<rparr>)\<rparr>"
  have dof: "\<forall>x. nd_dof (heap ?w' x) = nd_dof (heap w x)" by simp
  from solve_Inr_cases[OF assms(2)] show ?thesis
  proof (elim disjE conjE exE)
    assume nz: "matrix_sum (K_full (solver w)) \<noteq> 0"
      and sa: "solve_assembled w = (w1, Inr (u, R, fr, fx))"
    have s: "solution_of (solver w) = Some (u, R, fr, fx)"
      and wb: "write_back w (u, R, fr, fx) = (w1, Inr (u, R, fr, fx))"
      using solve_assembled_Inr[OF sa] by auto
    from write_back_cong[OF dof _ _ wb, of R] obtain w1' where
      "write_back ?w' (u, R, fr, fx) = (w1', Inr (u, R, fr, fx))"
      "sv_elements (solver w1') = sv_elements (solver w1)" by auto
    then have "solve ?w' = (w1', Inr (u, R, fr, fx)) \<and>
               element_forces (solver w1') = element_forces (solver w1)"
      using nz s by (simp add: solve_def solve_assembled_eq element_forces_def)
    then show ?thesis by blast
  next
    fix K
    assume z: "matrix_sum (K_full (solver w)) = 0"
      and asm: "assemble w = (assembled w K, Inr K)"
      and sa: "solve_assembled (assembled w K) = (w1, Inr (u, R, fr, fx))"
    let ?wa = "assembled w K" and ?wa' = "assembled ?w' K"
    let ?nodes = "sv_nodes (solver w)"
    let ?F = "map (\<lambda>nd. nd_force (heap w nd)) ?nodes"
    let ?F' = "map (\<lambda>nd. nd_force (heap ?w' nd)) ?nodes"
    have s: "solution_of (solver ?wa) = Some (u, R, fr, fx)"
      and wb: "write_back ?wa (u, R, fr, fx) = (w1, Inr (u, R, fr, fx))"
      using solve_assembled_Inr[OF sa] by auto
    have dofh: "\<forall>x. nd_dof (((heap w)(r := (heap w r)\<lparr>nd_force := f\<rparr>)) x) = nd_dof (heap w x)"
      by simp
    have loop: "assemble_loop ((heap w)(r := (heap w r)\<lparr>nd_force := f\<rparr>))
                  (sv_elements (solver w)) K0 =
          assemble_loop (heap w) (sv_elements (solver w)) K0" for K0
      by (rule assemble_loop_cong[OF same_element_inputs_refl dofh])
    have asm': "assemble ?w' = (?wa', Inr K)"
      using asm unfolding assemble_def assembled_def Let_def
      by (auto simp: loop split: sum.splits)
    have F: "F_full (solver ?wa) = ?F" "F_full (solver ?wa') = ?F'"
      and fixed: "sv_fixed (solver ?wa) = map (\<lambda>nd. nd_fixed (heap w nd)) ?nodes"
      by (simp_all add: assembled_def)
    have same_at: "?F' ! i = ?F ! i" if "i < length ?nodes" "?nodes ! i \<noteq> r" for i
      using that by simp
    have "gather ?F' (np_where (map Not (sv_fixed (solver ?wa)))) =
          gather ?F (np_where (map Not (sv_fixed (solver ?wa))))"
      unfolding gather_def
    proof (rule map_cong[OF refl])
      fix i assume "i \<in> set (np_where (map Not (sv_fixed (solver ?wa))))"
      then have i: "i < length ?nodes" "\<not> nd_fixed (heap w (?nodes ! i))"
        by (auto simp: set_np_where fixed)
      then have "?nodes ! i \<noteq> r" using assms(1) by auto
      then show "?F' ! i = ?F ! i" using same_at i(1) by blast
    qed
    then have g: "gather (F_full (solver ?wa')) (np_where (map Not (sv_fixed (solver ?wa)))) =
          gather (F_full (solver ?wa)) (np_where (map Not (sv_fixed (solver ?wa))))"
      by (simp only: F)
    have s': "solution_of (solver ?wa') =
                Some (u, vsub (matvec (K_full (solver ?wa)) u) (F_full (solver ?wa')), fr, fx)"
      and R: "R = vsub (matvec (K_full (solver ?wa)) u) (F_full (solver ?wa))"
      using solution_of_load[OF s _ _ _ _ g] by (simp_all add: assembled_def)
    let ?R' = "vsub (matvec (K_full (solver ?wa)) u) ?F'"
    have dof': "\<forall>x. nd_dof (heap ?wa' x) = nd_dof (heap ?wa x)" by (simp add: assembled_def)
    from write_back_cong[OF dof' _ _ wb, of ?R'] obtain w1' where
      wb': "write_back ?wa' (u, ?R', fr, fx) = (w1', Inr (u, ?R', fr, fx))"
      "sv_elements (solver w1') = sv_elements (solver w1)" by (auto simp: assembled_def)
    have sol: "solve ?w' = (w1', Inr (u, ?R', fr, fx))"
      using z asm' s' wb'(1) F(2) by (simp add: solve_def solve_assembled_eq)
    have len: "length ?R' = length R" unfolding R F by (simp add: length_vsub)
    have ent: "?R' ! i = R ! i" if "i < length R" "?nodes ! i \<noteq> r" for i
    proof -
      have i: "i < length (matvec (K_full (solver ?wa)) u)" "i < length ?nodes"
        using that(1) unfolding R F by (simp_all add: length_vsub)
      then have "?F' ! i = ?F ! i" using same_at that(2) by blast
      then show ?thesis unfolding R F using i by (simp add: vsub_nth)
    qed
    show ?thesis
      using sol wb'(2) len ent by (auto simp: element_forces_def)
  qed
qed

theorem load_on_constrained_node_witness:
  "nd_fixed (heap single_spring 0) \<and>
   snd (solve single_spring) = Inr ([0, 1 / 2], [- 5, 0], [1], [0]) \<and>
   (\<exists>w1' R'.
      solve (single_spring\<lparr>heap := (heap single_spring)(0 := (heap single_spring 0)\<lparr>nd_force := 7\<rparr>)\<rparr>) =
        (w1', Inr ([0, 1 / 2], R', [1], [0])) \<and>
      element_forces (solver w1') = element_forces (solver (fst (solve single_spring))))"
proof -
  have fx: "nd_fixed (heap single_spring 0)" by (simp add: single_spring_def)
  from load_on_constrained_node[OF fx single_spring_solved, of 7]
  show ?thesis using fx single_spring_solved by (metis snd_conv)
qed

section \<open>Index lists, scatter and gather, sums\<close>

lemma distinct_np_where: "distinct (np_where bs)"
  by (simp add: np_where_def)

lemma np_where_Not: "np_where (map Not bs) = filter (\<lambda>i. \<not> bs ! i) [0..<length bs]"
  unfolding np_where_def by (rule filter_cong) auto

lemma np_where_disjoint: "set (np_where (map Not bs)) \<inter> set (np_where bs) = {}"
  by (auto simp: set_np_where)

lemma sum_list_filter_split:
  fixes g :: "'a \<Rightarrow> real"
  shows "(\<Sum>x\<leftarrow>filter (\<lambda>x. \<not> P x) xs. g x) + (\<Sum>x\<leftarrow>filter P xs. g x) = (\<Sum>x\<leftarrow>xs. g x)"
  by (induction xs) auto

lemma sum_upt: "(\<Sum>i\<leftarrow>[0..<n]. g i) = (\<Sum>i<n. (g i :: real))"
  by (simp add: interv_sum_list_conv_sum_set_nat atLeast0LessThan)

lemma sum_free_fixed:
  fixes g :: "nat \<Rightarrow> real"
  shows "(\<Sum>i\<leftarrow>np_where (map Not bs). g i) + (\<Sum>i\<leftarrow>np_where bs. g i) = (\<Sum>i<length bs. g i)"
  unfolding np_where_Not unfolding np_where_def
  by (simp only: sum_list_filter_split sum_upt)

lemma length_scatter [simp]: "length (scatter u idx vals) = length u"
  by (induction u idx vals rule: scatter.induct) auto

lemma scatter_nth_notin: "j \<notin> set idx \<Longrightarrow> scatter u idx vals ! j = u ! j"
  by (induction u idx vals rule: scatter.induct) auto

lemma scatter_gather:
  "distinct idx \<Longrightarrow> length vals = length idx \<Longrightarrow> \<forall>i \<in> set idx. i < length u \<Longrightarrow>
     gather (scatter u idx vals) idx = vals"
proof (induction u idx vals rule: scatter.induct)
  case (1 u i idx v vals)
  have "scatter (u[i := v]) idx vals ! i = v"
    using 1 by (simp add: scatter_nth_notin)
  moreover have "gather (scatter (u[i := v]) idx vals) idx = vals"
    using 1 by simp
  ultimately show ?case by (simp add: gather_def)
qed (simp_all add: gather_def)

lemma gather_scatter_other:
  "set idx \<inter> set idx' = {} \<Longrightarrow> gather (scatter u idx' vals) idx = gather u idx"
proof -
  assume d: "set idx \<inter> set idx' = {}"
  have "scatter u idx' vals ! x = u ! x" if "x \<in> set idx" for x
    using d that by (intro scatter_nth_notin) auto
  then show ?thesis unfolding gather_def by (intro map_cong[OF refl])
qed

lemma dot_sum:
  "length xs = n \<Longrightarrow> length ys = n \<Longrightarrow> dot xs ys = (\<Sum>j<n. xs ! j * ys ! j)"
proof -
  assume l: "length xs = n" "length ys = n"
  have "dot xs ys = (\<Sum>j\<leftarrow>[0..<n]. map2 (*) xs ys ! j)"
    unfolding dot_def using l by (metis length_map length_zip map_nth min.idem)
  also have "\<dots> = (\<Sum>j\<leftarrow>[0..<n]. xs ! j * ys ! j)"
    by (rule arg_cong[where f = sum_list], rule map_cong[OF refl]) (simp add: l)
  finally show ?thesis by (simp add: sum_upt)
qed

lemma dot_gather: "dot (map f idx) (gather u idx) = (\<Sum>j\<leftarrow>idx. f j * u ! j)"
  by (induction idx) (simp_all add: gather_def)

lemma matvec_nth: "i < length K \<Longrightarrow> matvec K u ! i = dot (K ! i) u"
  by (simp add: matvec_def)

lemma length_matvec [simp]: "length (matvec K u) = length K"
  by (simp add: matvec_def)

lemma length_gather [simp]: "length (gather xs idx) = length idx"
  by (simp add: gather_def)

lemma ix_nth: "p < length rows \<Longrightarrow> ix K rows cols ! p = map (\<lambda>c. K ! (rows ! p) ! c) cols"
  by (simp add: ix_def)

lemma square_ix: "square (length idx) (ix K idx idx)"
  by (auto simp: square_def ix_def)

lemma sum_list_sum_swap:
  fixes f :: "'a \<Rightarrow> nat \<Rightarrow> real"
  shows "(\<Sum>i<n. \<Sum>e\<leftarrow>es. f e i) = (\<Sum>e\<leftarrow>es. \<Sum>i<n. f e i)"
  by (induction es) (simp_all add: sum.distrib)

section \<open>The partitioned solve\<close>

lemma solution_of_None_iff:
  "solution_of s = None \<longleftrightarrow>
     np_where (map Not (sv_fixed s)) \<noteq> [] \<and> linalg_solve (reduced_matrix s) (reduced_rhs s) = None"
  unfolding solution_of_def reduced_matrix_def reduced_rhs_def Let_def
  by (auto split: option.splits if_splits)

lemma np_where_less: "i \<in> set (np_where bs) \<Longrightarrow> i < length bs"
  by (simp add: set_np_where)

lemma solution_of_Some:
  assumes ok: "shape_ok s" and sol: "solution_of s = Some (u, R, fr, fx)"
  shows "fr = np_where (map Not (sv_fixed s)) \<and> fx = np_where (sv_fixed s) \<and>
         length u = sv_n s \<and> gather u fx = gather (u_known s) fx \<and>
         R = vsub (matvec (K_full s) u) (F_full s) \<and>
         (fr \<noteq> [] \<longrightarrow> matvec (reduced_matrix s) (gather u fr) = reduced_rhs s)"
proof -
  let ?fr = "np_where (map Not (sv_fixed s))" and ?fx = "np_where (sv_fixed s)"
  define z where "z = replicate (sv_n s) (0::real)"
  define uc where "uc = (if ?fx \<noteq> [] then gather (u_known s) ?fx else [])"
  have n: "length (sv_fixed s) = sv_n s" using ok by (simp add: shape_ok_def)
  have fr_lt: "\<forall>i \<in> set ?fr. i < sv_n s" using np_where_less[of _ "map Not (sv_fixed s)"] n by auto
  have fx_lt: "\<forall>i \<in> set ?fx. i < sv_n s" using np_where_less[of _ "sv_fixed s"] n by auto
  have uc: "uc = gather (u_known s) ?fx" by (simp add: uc_def gather_def)
  have z: "length z = sv_n s" by (simp add: z_def)
  have fixed_part: "gather (scatter v ?fx uc) ?fx = gather (u_known s) ?fx"
    if "length v = sv_n s" for v
    unfolding uc using that fx_lt by (intro scatter_gather) (simp_all add: distinct_np_where)
  show ?thesis
  proof (cases "?fr = []")
    case True
    define U where "U = scatter z ?fx uc"
    have "solution_of s = Some (U, vsub (matvec (K_full s) U) (F_full s), ?fr, ?fx)"
      using True unfolding solution_of_def Let_def U_def z_def uc_def by simp
    then have eqs: "u = U" "R = vsub (matvec (K_full s) U) (F_full s)" "fr = ?fr" "fx = ?fx"
      using sol by simp_all
    have "length U = sv_n s" "gather U ?fx = gather (u_known s) ?fx"
      using fixed_part[OF z] z by (simp_all add: U_def)
    then show ?thesis using True eqs by simp
  next
    case False
    then obtain uf where uf: "linalg_solve (reduced_matrix s) (reduced_rhs s) = Some uf"
      using sol solution_of_None_iff[of s] by (cases "linalg_solve (reduced_matrix s) (reduced_rhs s)") auto
    define u1 where "u1 = scatter z ?fr uf"
    define U where "U = (if ?fx \<noteq> [] then scatter u1 ?fx uc else u1)"
    have "solution_of s = Some (U, vsub (matvec (K_full s) U) (F_full s), ?fr, ?fx)"
      using False uf
      unfolding solution_of_def reduced_matrix_def reduced_rhs_def Let_def U_def u1_def z_def uc_def
      by (cases "?fx = []") simp_all
    then have eqs: "u = U" "R = vsub (matvec (K_full s) U) (F_full s)" "fr = ?fr" "fx = ?fx"
      using sol by simp_all
    have snd: "length uf = length ?fr" "matvec (reduced_matrix s) uf = reduced_rhs s"
      using linalg_solve_sound[OF _ uf, of "length ?fr"] square_ix[of ?fr "K_full s"]
      by (simp_all add: reduced_matrix_def)
    have u1: "length u1 = sv_n s" by (simp add: u1_def z)
    have g1: "gather u1 ?fr = uf"
      unfolding u1_def using fr_lt snd(1) z by (intro scatter_gather) (simp_all add: distinct_np_where)
    have "gather (scatter u1 ?fx uc) ?fr = gather u1 ?fr"
      by (rule gather_scatter_other) (rule np_where_disjoint)
    then have free_part: "gather U ?fr = uf" using g1 by (simp add: U_def)
    have fix_part: "gather U ?fx = gather (u_known s) ?fx"
    proof (cases "?fx = []")
      case True
      then show ?thesis by (simp add: gather_def)
    next
      case False
      then show ?thesis using fixed_part[OF u1] by (simp add: U_def)
    qed
    have "length U = sv_n s" using u1 by (simp add: U_def)
    then show ?thesis using eqs free_part fix_part snd(2) by simp
  qed
qed


lemma reduced_cong:
  "same_arrays s t \<Longrightarrow> reduced_matrix s = reduced_matrix t \<and> reduced_rhs s = reduced_rhs t"
  by (simp add: same_arrays_def reduced_matrix_def reduced_rhs_def)

lemma shape_ok_assembled:
  assumes "shape_ok (solver w)" "assemble w = (assembled w K, Inr K)"
  shows "shape_ok (solver (assembled w K))"
proof -
  have "elems_ok w" using assms(2) assemble_cases[of w] by auto
  from assemble_ok[OF this] have "square (sv_n (solver w)) K" using assms(2) by auto
  then show ?thesis using assms(1) by (simp add: shape_ok_def assembled_def)
qed





section \<open>Singular systems\<close>

lemma length_ix [simp]: "length (ix K rows cols) = length rows"
  by (simp add: ix_def)

lemma length_reduced_rhs:
  "length (reduced_rhs s) = length (np_where (map Not (sv_fixed s)))"
  by (simp add: reduced_rhs_def length_vsub)

lemma not_singular_Nil: "\<not> singular []"
  by (simp add: singular_def kernel_vec_def)

lemma solution_of_None_singular:
  "solution_of s = None \<longleftrightarrow> singular (reduced_matrix s)"
proof (cases "np_where (map Not (sv_fixed s)) = []")
  case True
  then have "reduced_matrix s = []" by (simp add: reduced_matrix_def ix_def)
  then show ?thesis using True by (simp add: solution_of_None_iff not_singular_Nil)
next
  case False
  have "square (length (np_where (map Not (sv_fixed s)))) (reduced_matrix s)"
    unfolding reduced_matrix_def by (rule square_ix)
  from linalg_solve_None_iff[OF this length_reduced_rhs]
  show ?thesis using False by (simp add: solution_of_None_iff)
qed

lemma get_at_ok: "idx_ok (length u) i \<Longrightarrow> get_at u i = Inr (u ! nidx (length u) i)"
  by (simp add: get_at_def np_index_eq bind_err_def)

lemma axial_force_ok:
  "elem_ok h (length u) e \<Longrightarrow> \<exists>f. axial_force h e u = Inr f"
  by (simp add: axial_force_def elongation_def connectivity_def elem_ok_def get_at_ok bind_err_def)

lemma write_axial_ok:
  "\<forall>e \<in> set es. elem_ok h (length u) e \<Longrightarrow> snd (write_axial h u es) = None"
proof (induction es)
  case Nil
  then show ?case by simp
next
  case (Cons e es)
  then obtain f where "axial_force h e u = Inr f" using axial_force_ok[of h u e] by auto
  then show ?case using Cons by (auto split: prod.splits)
qed

lemma elem_ok_cong:
  "\<forall>r. nd_dof (h' r) = nd_dof (h r) \<Longrightarrow> elem_ok h' n e = elem_ok h n e"
  by (simp add: elem_ok_def)

lemma write_back_ok:
  assumes "elems_ok w" "length u = sv_n (solver w)"
  shows "snd (write_back w (u, R, fr, fx)) = Inr (u, R, fr, fx)"
proof -
  let ?h = "write_u (heap w) (enumerate 0 (sv_nodes (solver w))) u"
  have "\<forall>r. nd_dof (?h r) = nd_dof (heap w r)"
    using write_u_inputs[of "heap w" _ u] by (simp add: same_inputs_def)
  then have "\<forall>e \<in> set (sv_elements (solver w)). elem_ok ?h (length u) e"
    using assms elem_ok_cong[of ?h "heap w"] by (simp add: elems_ok_def)
  then have "snd (write_axial ?h u (sv_elements (solver w))) = None" by (rule write_axial_ok)
  then show ?thesis by (auto simp: write_back_def Let_def split: prod.splits)
qed

lemma solve_assembled_outcome:
  assumes "shape_ok (solver w)" "elems_ok w"
  shows "(singular (reduced_matrix (solver w)) \<longrightarrow>
            solve_assembled w = (w, Inl (ValueError Singular_stiffness))) \<and>
         (\<not> singular (reduced_matrix (solver w)) \<longrightarrow>
            (\<exists>sol. snd (solve_assembled w) = Inr sol))"
proof (cases "solution_of (solver w)")
  case None
  then show ?thesis using solution_of_None_singular[of "solver w"]
    by (simp add: solve_assembled_eq)
next
  case (Some sol)
  obtain u R fr fx where sol: "sol = (u, R, fr, fx)" by (cases sol)
  have "length u = sv_n (solver w)"
    using solution_of_Some[OF assms(1)] Some sol by blast
  from write_back_ok[OF assms(2) this]
  have "snd (solve_assembled w) = Inr sol" using Some sol by (simp add: solve_assembled_eq)
  moreover have "\<not> singular (reduced_matrix (solver w))"
    using Some solution_of_None_singular[of "solver w"] by simp
  ultimately show ?thesis by blast
qed

lemma elems_ok_assembled: "elems_ok (assembled w K) = elems_ok w"
  by (simp add: elems_ok_def assembled_def)

lemma solve_as_assembled:
  assumes "shape_ok (solver w)" "elems_ok w"
  shows "\<exists>wa. solve w = solve_assembled wa \<and> shape_ok (solver wa) \<and> elems_ok wa \<and>
              (wa = w \<or> (\<exists>K. assemble w = (assembled w K, Inr K) \<and> wa = assembled w K))"
proof (cases "matrix_sum (K_full (solver w)) = 0")
  case False
  then show ?thesis using assms by (auto simp: solve_def)
next
  case True
  obtain K where K: "assemble w = (assembled w K, Inr K)"
    using assemble_ok[OF assms(2)] by blast
  have "solve w = solve_assembled (assembled w K)" using True K by (simp add: solve_def)
  then show ?thesis
    using shape_ok_assembled[OF assms(1) K] elems_ok_assembled[of w K] assms(2) K by blast
qed

text \<open>
  Claim C2. Take a model whose elements have valid DOFs and a solver whose arrays have the
  shape of the node list. \<^verbatim>\<open>solve\<close> fails with the singular-stiffness \<^verbatim>\<open>ValueError\<close>
  exactly when the reduced free-by-free matrix it solves with is singular, and it returns
  a result exactly when that matrix is nonsingular. The three-node model with one element
  between nodes 1 and 2 and node 3 uncoupled is such a failure.
\<close>

theorem solve_singular_iff:
  assumes "shape_ok (solver w)" and "elems_ok w"
  shows "(singular (reduced_matrix (solver (fst (solve w)))) \<longleftrightarrow>
            snd (solve w) = Inl (ValueError Singular_stiffness)) \<and>
         (\<not> singular (reduced_matrix (solver (fst (solve w)))) \<longleftrightarrow>
            (\<exists>sol. snd (solve w) = Inr sol))"
proof -
  obtain wa where wa: "solve w = solve_assembled wa" "shape_ok (solver wa)" "elems_ok wa"
    using solve_as_assembled[OF assms] by blast
  have "reduced_matrix (solver (fst (solve_assembled wa))) = reduced_matrix (solver wa)"
    using solve_assembled_arrays[of wa] reduced_cong by blast
  then have red: "reduced_matrix (solver (fst (solve w))) = reduced_matrix (solver wa)"
    using wa(1) by simp
  show ?thesis
  proof (cases "singular (reduced_matrix (solver wa))")
    case True
    then have "solve w = (wa, Inl (ValueError Singular_stiffness))"
      using solve_assembled_outcome[OF wa(2,3)] wa(1) by simp
    then show ?thesis using True red by simp
  next
    case False
    then obtain sol where sol: "snd (solve w) = Inr sol"
      using solve_assembled_outcome[OF wa(2,3)] wa(1) by auto
    then have ex: "\<exists>sol. snd (solve w) = Inr sol" by blast
    have ns: "snd (solve w) \<noteq> Inl (ValueError Singular_stiffness)" using sol by simp
    show ?thesis unfolding red using False ex ns by blast
  qed
qed

theorem solve_singular_iff_witness:
  "shape_ok (solver detached_node) \<and> elems_ok detached_node \<and>
   snd (solve detached_node) = Inl (ValueError Singular_stiffness) \<and>
   singular (reduced_matrix (solver (fst (solve detached_node)))) \<and>
   shape_ok (solver single_spring) \<and> elems_ok single_spring \<and>
   snd (solve single_spring) = Inr ([0, 1 / 2], [- 5, 0], [1], [0]) \<and>
   \<not> singular (reduced_matrix (solver (fst (solve single_spring))))"
proof -
  have ok: "shape_ok (solver detached_node)"
    by (simp add: detached_node_def SpringFEASolver_init_def shape_ok_def square_def)
  have el: "elems_ok detached_node"
    by (simp add: elems_ok_def detached_node_def SpringFEASolver_init_def elem_ok_def idx_ok_def
        Node_init_def)
  have fails: "snd (solve detached_node) = Inl (ValueError Singular_stiffness)"
    by code_simp
  have ok2: "shape_ok (solver single_spring)"
    by (simp add: single_spring_def SpringFEASolver_init_def shape_ok_def square_def)
  have el2: "elems_ok single_spring"
    by (simp add: elems_ok_def single_spring_def SpringFEASolver_init_def elem_ok_def idx_ok_def
        Node_init_def)
  have works: "snd (solve single_spring) = Inr ([0, 1 / 2], [- 5, 0], [1], [0])"
    using single_spring_solved by (metis snd_conv)
  show ?thesis
    using solve_singular_iff[OF ok el] solve_singular_iff[OF ok2 el2] ok el fails ok2 el2 works
    by simp
qed

section \<open>Global equilibrium\<close>

lemma sum_list_all_zero: "\<forall>x \<in> set xs. f x = (0::real) \<Longrightarrow> (\<Sum>x\<leftarrow>xs. f x) = 0"
  by (induction xs) auto

lemma incidence_sum:
  assumes "elem_ok h n e"
  shows "(\<Sum>a<n. incidence h n e a) = 0"
proof -
  let ?p = "nidx n (nd_dof (h (el_i e)))" and ?q = "nidx n (nd_dof (h (el_j e)))"
  have p: "?p < n" and q: "?q < n" using assms nidx_less by (auto simp: elem_ok_def)
  have "(\<Sum>a<n. if a = ?p then 1 else (0::real)) = 1" using p by simp
  moreover have "(\<Sum>a<n. if a = ?q then 1 else (0::real)) = 1" using q by simp
  ultimately show ?thesis unfolding incidence_def by (simp add: sum_subtractf)
qed

lemma contrib_column_sum:
  assumes "elem_ok h n e"
  shows "(\<Sum>a<n. contrib h n e a b) = 0"
proof -
  have "(\<Sum>a<n. contrib h n e a b) = el_k e * incidence h n e b * (\<Sum>a<n. incidence h n e a)"
    unfolding contrib_def by (simp add: sum_distrib_left mult_ac)
  then show ?thesis using incidence_sum[OF assms] by simp
qed

lemma assembled_zero_columns:
  assumes "assemble w = (w', Inr K)"
  shows "zero_columns (sv_n (solver w)) K"
proof -
  let ?n = "sv_n (solver w)"
  have ok: "elems_ok w" using assms assemble_cases[of w] by auto
  from assemble_ok[OF ok] have ent: "\<forall>a<?n. \<forall>b<?n.
      K ! a ! b = (\<Sum>e\<leftarrow>sv_elements (solver w). contrib (heap w) ?n e a b)"
    using assms by auto
  have "(\<Sum>a<?n. K ! a ! b) = 0" if b: "b < ?n" for b
  proof -
    have "(\<Sum>a<?n. K ! a ! b) = (\<Sum>a<?n. \<Sum>e\<leftarrow>sv_elements (solver w). contrib (heap w) ?n e a b)"
      using ent b by (intro sum.cong refl) simp
    also have "\<dots> = (\<Sum>e\<leftarrow>sv_elements (solver w). \<Sum>a<?n. contrib (heap w) ?n e a b)"
      by (rule sum_list_sum_swap)
    also have "\<dots> = 0"
      using ok contrib_column_sum by (intro sum_list_all_zero) (auto simp: elems_ok_def)
    finally show ?thesis .
  qed
  then show ?thesis by (simp add: zero_columns_def)
qed

lemma sum_list_nth_sum: "length xs = n \<Longrightarrow> sum_list xs = (\<Sum>i<n. (xs ! i :: real))"
  by (simp add: sum_list_sum_nth atLeast0LessThan)

lemma matrix_sum_zero_columns:
  assumes "square n K" "zero_columns n K"
  shows "matrix_sum K = 0"
proof -
  have len: "length K = n" using assms(1) by (simp add: square_def)
  have row: "sum_list (K ! a) = (\<Sum>b<n. K ! a ! b)" if "a < n" for a
    using assms(1) that len by (intro sum_list_nth_sum) (simp add: square_def)
  have "matrix_sum K = (\<Sum>a<n. sum_list (K ! a))"
    unfolding matrix_sum_def using len by (simp add: sum_list_sum_nth atLeast0LessThan)
  also have "\<dots> = (\<Sum>a<n. \<Sum>b<n. K ! a ! b)" using row by (intro sum.cong refl) simp
  also have "\<dots> = (\<Sum>b<n. \<Sum>a<n. K ! a ! b)" by (rule sum.swap)
  also have "\<dots> = 0" using assms(2) by (simp add: zero_columns_def)
  finally show ?thesis .
qed

text \<open>
  A matrix that \<^verbatim>\<open>assemble\<close> has stored always passes the test \<^verbatim>\<open>K_full.sum() == 0.0\<close>,
  whatever its entries: the next \<^verbatim>\<open>solve\<close> assembles again.
\<close>

lemma assembled_matrix_sum:
  assumes "assemble w = (w', Inr K)"
  shows "matrix_sum (K_full (solver w')) = 0"
proof -
  have ok: "elems_ok w" using assms assemble_cases[of w] by auto
  from assemble_ok[OF ok] have "square (sv_n (solver w)) K" "w' = assembled w K"
    using assms by auto
  then show ?thesis
    using matrix_sum_zero_columns[OF _ assembled_zero_columns[OF assms]]
    by (simp add: assembled_def)
qed

lemma free_residual:
  assumes ok: "shape_ok s" and sol: "solution_of s = Some (u, R, fr, fx)" and i: "i \<in> set fr"
  shows "R ! i = 0"
proof -
  let ?n = "sv_n s" and ?K = "K_full s" and ?F = "F_full s"
  from solution_of_Some[OF ok sol] have
    fr: "fr = np_where (map Not (sv_fixed s))" and fx: "fx = np_where (sv_fixed s)"
    and lu: "length u = ?n" and ufx: "gather u fx = gather (u_known s) fx"
    and R: "R = vsub (matvec ?K u) ?F"
    and sys: "matvec (reduced_matrix s) (gather u fr) = reduced_rhs s"
    using i by auto
  have shp: "length ?K = ?n" "length ?F = ?n" "length (sv_fixed s) = ?n"
    "\<forall>r \<in> set ?K. length r = ?n"
    using ok by (simp_all add: shape_ok_def square_def)
  have i_lt: "i < ?n" using i np_where_less[of i "map Not (sv_fixed s)"] fr shp(3) by simp
  obtain p where p: "p < length fr" "fr ! p = i" using i by (auto simp: in_set_conv_nth)
  let ?row = "\<lambda>c. ?K ! i ! c"
  have lhs: "matvec (reduced_matrix s) (gather u fr) ! p = (\<Sum>j\<leftarrow>fr. ?row j * u ! j)"
    using p by (simp add: reduced_matrix_def fr[symmetric] matvec_nth ix_nth dot_gather)
  have rhs: "reduced_rhs s ! p = ?F ! i - (\<Sum>j\<leftarrow>fx. ?row j * u ! j)"
  proof (cases "fx = []")
    case True
    then show ?thesis using p by (simp add: reduced_rhs_def fr[symmetric] fx[symmetric] gather_def)
  next
    case False
    have "matvec (ix ?K fr fx) (gather (u_known s) fx) ! p = (\<Sum>j\<leftarrow>fx. ?row j * u ! j)"
      using p by (simp add: matvec_nth ix_nth ufx[symmetric] dot_gather)
    then show ?thesis using False p
      by (simp add: reduced_rhs_def fr[symmetric] fx[symmetric] vsub_nth gather_def)
  qed
  have "(\<Sum>j\<leftarrow>fr. ?row j * u ! j) + (\<Sum>j\<leftarrow>fx. ?row j * u ! j) = (\<Sum>j<?n. ?row j * u ! j)"
    unfolding fr fx using sum_free_fixed[where bs = "sv_fixed s" and g = "\<lambda>j. ?row j * u ! j"] shp(3) by simp
  moreover have "dot (?K ! i) u = (\<Sum>j<?n. ?row j * u ! j)"
    using shp i_lt lu by (intro dot_sum) simp_all
  ultimately have "dot (?K ! i) u = ?F ! i" using lhs rhs sys by simp
  then show ?thesis unfolding R using i_lt shp by (simp add: vsub_nth matvec_nth)
qed

lemma equilibrium:
  assumes ok: "shape_ok s" and zc: "zero_columns (sv_n s) (K_full s)"
    and sol: "solution_of s = Some (u, R, fr, fx)"
  shows "sum_list (F_full s) + (\<Sum>i\<leftarrow>fx. R ! i) = 0"
proof -
  let ?n = "sv_n s" and ?K = "K_full s" and ?F = "F_full s"
  from solution_of_Some[OF ok sol] have
    fr: "fr = np_where (map Not (sv_fixed s))" and fx: "fx = np_where (sv_fixed s)"
    and lu: "length u = ?n" and R: "R = vsub (matvec ?K u) ?F"
    by auto
  have shp: "length ?K = ?n" "length ?F = ?n" "length (sv_fixed s) = ?n"
    "\<forall>r \<in> set ?K. length r = ?n"
    using ok by (simp_all add: shape_ok_def square_def)
  have "(\<Sum>i\<leftarrow>fr. R ! i) = 0"
    using free_residual[OF ok sol] by (intro sum_list_all_zero) auto
  moreover have "(\<Sum>i\<leftarrow>fr. R ! i) + (\<Sum>i\<leftarrow>fx. R ! i) = (\<Sum>i<?n. R ! i)"
    unfolding fr fx using sum_free_fixed[where bs = "sv_fixed s" and g = "\<lambda>i. R ! i"] shp(3) by simp
  ultimately have fixed_sum: "(\<Sum>i\<leftarrow>fx. R ! i) = (\<Sum>i<?n. R ! i)" by simp
  have Ri: "R ! i = (\<Sum>j<?n. ?K ! i ! j * u ! j) - ?F ! i" if "i < ?n" for i
  proof -
    have "dot (?K ! i) u = (\<Sum>j<?n. ?K ! i ! j * u ! j)"
      using shp that lu by (intro dot_sum) simp_all
    then show ?thesis unfolding R using that shp by (simp add: vsub_nth matvec_nth)
  qed
  have "(\<Sum>i<?n. R ! i) = (\<Sum>i<?n. (\<Sum>j<?n. ?K ! i ! j * u ! j) - ?F ! i)"
    using Ri by (intro sum.cong refl) simp
  also have "\<dots> = (\<Sum>i<?n. \<Sum>j<?n. ?K ! i ! j * u ! j) - (\<Sum>i<?n. ?F ! i)"
    by (simp add: sum_subtractf)
  also have "(\<Sum>i<?n. \<Sum>j<?n. ?K ! i ! j * u ! j) = (\<Sum>j<?n. \<Sum>i<?n. ?K ! i ! j * u ! j)"
    by (rule sum.swap)
  also have "\<dots> = (\<Sum>j<?n. (\<Sum>i<?n. ?K ! i ! j) * u ! j)"
    by (simp add: sum_distrib_right)
  also have "\<dots> = 0" using zc by (simp add: zero_columns_def)
  finally have "(\<Sum>i<?n. R ! i) = - (\<Sum>i<?n. ?F ! i)" by simp
  moreover have "sum_list ?F = (\<Sum>i<?n. ?F ! i)" using shp(2) by (rule sum_list_nth_sum)
  ultimately show ?thesis using fixed_sum by simp
qed

text \<open>
  Claim C7. Let \<^verbatim>\<open>solve\<close> start from stored arrays of the node list's shape whose
  matrix passes the source's assembly test (a fresh solver, or any state \<^verbatim>\<open>assemble\<close>
  has left), and let it return. Then the load vector it used is the list of the nodes'
  applied loads, and the sum of all its entries plus the sum of the reaction entries at
  the constrained DOFs is zero: exactly, in real arithmetic.
\<close>

theorem solve_global_equilibrium:
  assumes "shape_ok (solver w)"
    and "matrix_sum (K_full (solver w)) = 0"
    and "solve w = (w1, Inr (u, R, free_idx, fixed_idx))"
  shows "F_full (solver w1) = map (\<lambda>nd. nd_force (heap w nd)) (sv_nodes (solver w)) \<and>
         sum_list (F_full (solver w1)) + (\<Sum>i\<leftarrow>fixed_idx. R ! i) = 0"
proof -
  from solve_Inr_cases[OF assms(3)] assms(2) obtain K where
    asm: "assemble w = (assembled w K, Inr K)"
    and sa: "solve_assembled (assembled w K) = (w1, Inr (u, R, free_idx, fixed_idx))"
    by auto
  let ?s = "solver (assembled w K)"
  have ok: "shape_ok ?s" by (rule shape_ok_assembled[OF assms(1) asm])
  have zc: "zero_columns (sv_n ?s) (K_full ?s)"
    using assembled_zero_columns[OF asm] by (simp add: assembled_def)
  have sol: "solution_of ?s = Some (u, R, free_idx, fixed_idx)"
    using solve_assembled_Inr[OF sa] by simp
  have "same_arrays (solver w1) ?s" using solve_assembled_arrays[of "assembled w K"] sa by simp
  then have F: "F_full (solver w1) = F_full ?s" by (simp add: same_arrays_def)
  have "F_full ?s = map (\<lambda>nd. nd_force (heap w nd)) (sv_nodes (solver w))"
    by (simp add: assembled_def)
  then show ?thesis using equilibrium[OF ok zc sol] F by simp
qed

theorem solve_global_equilibrium_witness:
  "shape_ok (solver single_spring) \<and> matrix_sum (K_full (solver single_spring)) = 0 \<and>
   snd (solve single_spring) = Inr ([0, 1 / 2], [- 5, 0], [1], [0]) \<and>
   F_full (solver (fst (solve single_spring))) = [0, 5] \<and>
   sum_list (F_full (solver (fst (solve single_spring)))) + (\<Sum>i\<leftarrow>[0]. [- 5, 0 :: real] ! i) = 0"
proof -
  have ok: "shape_ok (solver single_spring)"
    by (simp add: single_spring_def SpringFEASolver_init_def shape_ok_def square_def)
  have z: "matrix_sum (K_full (solver single_spring)) = 0"
    by (simp add: single_spring_def SpringFEASolver_init_def matrix_sum_def)
  have nodes: "map (\<lambda>nd. nd_force (heap single_spring nd)) (sv_nodes (solver single_spring)) = [0, 5]"
    by (simp add: single_spring_def SpringFEASolver_init_def Node_init_def)
  from solve_global_equilibrium[OF ok z single_spring_solved]
  show ?thesis using ok z single_spring_solved nodes by (metis snd_conv)
qed

section \<open>Fresh solvers and uncoupled DOFs\<close>

text \<open>
  A solver fresh from \<^verbatim>\<open>__init__\<close> has arrays of the shape of its node list and a
  zero matrix, so the assumptions made on the solver's state above hold for every model
  as it is first handed to the solver.
\<close>

lemma fresh_solver_ok:
  "shape_ok (SpringFEASolver_init nodes elements) \<and>
   matrix_sum (K_full (SpringFEASolver_init nodes elements)) = 0"
  by (simp add: SpringFEASolver_init_def shape_ok_def square_def matrix_sum_def Let_def
      sum_list_replicate)

lemma dot_unit:
  "p < length xs \<Longrightarrow> dot xs ((replicate (length xs) 0)[p := 1]) = xs ! p"
proof (induction xs arbitrary: p)
  case Nil
  then show ?case by simp
next
  case (Cons x xs)
  show ?case
  proof (cases p)
    case 0
    then show ?thesis by (simp add: dot_replicate_zero)
  next
    case (Suc q)
    then show ?thesis using Cons by simp
  qed
qed

lemma zero_column_singular:
  assumes "i \<in> set fr" and "\<forall>a \<in> set fr. K ! a ! i = 0"
  shows "singular (ix K fr fr)"
proof -
  obtain p where p: "p < length fr" "fr ! p = i" using assms(1) by (auto simp: in_set_conv_nth)
  let ?v = "(replicate (length fr) (0::real))[p := 1]"
  have "?v ! p = 1" using p(1) by simp
  then have nz: "\<exists>x \<in> set ?v. x \<noteq> 0"
    using p(1) by (metis length_list_update length_replicate nth_mem zero_neq_one)
  have "dot r ?v = 0" if r_in: "r \<in> set (ix K fr fr)" for r
  proof -
    obtain a where a: "a \<in> set fr" "r = map (\<lambda>c. K ! a ! c) fr"
      using r_in by (auto simp: ix_def)
    have "dot r ?v = r ! p" using dot_unit[of p r] p(1) a(2) by simp
    then show ?thesis using a p assms(2) by simp
  qed
  then have "kernel_vec (ix K fr fr) ?v" using nz by (simp add: kernel_vec_def)
  then show ?thesis unfolding singular_def by (rule exI)
qed

text \<open>
  A free DOF that no element touches makes the reduced matrix singular: on a fresh or
  freshly assembled solver, \<^verbatim>\<open>solve\<close> then fails with the singular-stiffness error,
  whatever the stiffnesses and the constraints of the other nodes.
\<close>

lemma uncoupled_free_dof_fails:
  assumes ok: "shape_ok (solver w)" and el: "elems_ok w"
    and z: "matrix_sum (K_full (solver w)) = 0"
    and i: "i < length (sv_nodes (solver w))"
    and free: "\<not> nd_fixed (heap w (sv_nodes (solver w) ! i))"
    and unc: "\<forall>e \<in> set (sv_elements (solver w)). incidence (heap w) (sv_n (solver w)) e i = 0"
  shows "snd (solve w) = Inl (ValueError Singular_stiffness)"
proof -
  let ?n = "sv_n (solver w)"
  obtain K where K: "assemble w = (assembled w K, Inr K)"
    and ent: "\<forall>a<?n. \<forall>b<?n. K ! a ! b =
                (\<Sum>e\<leftarrow>sv_elements (solver w). contrib (heap w) ?n e a b)"
    using assemble_ok[OF el] by blast
  let ?wa = "assembled w K"
  let ?fr = "np_where (map Not (sv_fixed (solver ?wa)))"
  have n: "?n = length (sv_nodes (solver w))" using ok by (simp add: shape_ok_def)
  have i_fr: "i \<in> set ?fr" using i free by (simp add: set_np_where assembled_def)
  have col: "K ! a ! i = 0" if "a \<in> set ?fr" for a
  proof -
    have "a < length (map Not (sv_fixed (solver ?wa)))" using that by (rule np_where_less)
    then have "a < ?n" using n by (simp add: assembled_def)
    then have "K ! a ! i = (\<Sum>e\<leftarrow>sv_elements (solver w). contrib (heap w) ?n e a i)"
      using ent i n by simp
    also have "\<dots> = 0" using unc by (intro sum_list_all_zero) (simp add: contrib_def)
    finally show ?thesis .
  qed
  have "singular (ix K ?fr ?fr)" using zero_column_singular[OF i_fr] col by blast
  then have sing: "singular (reduced_matrix (solver ?wa))"
    by (simp add: reduced_matrix_def assembled_def)
  have "solve w = solve_assembled ?wa" using z K by (simp add: solve_def)
  moreover have "solve_assembled ?wa = (?wa, Inl (ValueError Singular_stiffness))"
    using solve_assembled_outcome[OF shape_ok_assembled[OF ok K]] el sing
    by (simp add: elems_ok_assembled)
  ultimately show ?thesis by simp
qed

section \<open>When \<^verbatim>\<open>solve\<close> assembles\<close>

text \<open>
  The matrix \<^verbatim>\<open>assemble\<close> stores sums to zero, so a \<^verbatim>\<open>solve\<close> that follows a
  successful \<^verbatim>\<open>assemble\<close> never uses the stored arrays as they are: it always runs
  the assembly again.
\<close>

lemma solve_after_assemble:
  assumes "assemble w = (w', Inr K)"
  shows "solve w' =
           (case assemble w' of
              (w'', Inl err) \<Rightarrow> (w'', Inl err)
            | (w'', Inr K') \<Rightarrow> solve_assembled w'')"
  using assembled_matrix_sum[OF assms] by (simp add: solve_def)

text \<open>
  Claim C3 says that \<^verbatim>\<open>solve\<close> assembles exactly when the stored matrix is entirely
  zero, and uses a stored matrix with a nonzero entry as it is. The source tests
  \<^verbatim>\<open>K_full.sum() == 0.0\<close>, the sum of all entries. On the stale single spring the stored
  matrix has four nonzero entries that sum to zero: \<^verbatim>\<open>solve\<close> assembles again, picks up
  the new load 7 and returns the displacement \<open>7/10\<close>, where the stored arrays alone give
  \<open>1/2\<close>.
\<close>

theorem solve_reassembles_nonzero_matrix:
  "K_full (solver stale_spring) = [[10, - 10], [- 10, 10]] \<and>
   F_full (solver stale_spring) = [0, 5] \<and>
   snd (solve_assembled stale_spring) = Inr ([0, 1 / 2], [- 5, 0], [1], [0]) \<and>
   snd (solve stale_spring) = Inr ([0, 7 / 10], [- 7, 0], [1], [0]) \<and>
   F_full (solver (fst (solve stale_spring))) = [0, 7]"
  by code_simp

end
